theory Spec2Isabelle
  imports Main "HOL-Library.Multiset" "HOL-Library.Sublist"
begin

section \<open>Data model\<close>

text \<open>
  The exceptions of the Python program that the modelled code can raise:
  \<open>heappop\<close> on an empty list raises \<open>IndexError\<close>, a dictionary lookup of a missing
  key raises \<open>KeyError\<close>, a failing \<open>assert\<close> raises \<open>AssertionError\<close> and \<open>int(s, base)\<close>
  on a string that is not a numeral raises \<open>ValueError\<close>.
\<close>

datatype error = IndexError | KeyError | AssertionError | ValueError

text \<open>
  \<open>class TreeNode\<close>: the fields \<open>letter\<close>, \<open>freq\<close>, \<open>left\<close>, \<open>right\<close> and \<open>encoding\<close>.
  A child that is \<open>None\<close> in Python is \<open>None\<close> here. Python's \<open>str\<close> is a \<open>string\<close>,
  one \<open>char\<close> standing for one character of the input; the counts are natural numbers
  (they start at 0 and are only ever incremented and added).
\<close>

datatype TreeNode =
  TreeNode (letter: string) (freq: nat) (left: "TreeNode option") (right: "TreeNode option")
    (encoding: string)

text \<open>\<open>TreeNode.__init__(letter, num)\<close>: no children, empty encoding.\<close>

definition new_node :: "string \<Rightarrow> nat \<Rightarrow> TreeNode" where
  "new_node l num = TreeNode l num None None []"

text \<open>\<open>TreeNode.__lt__\<close>: nodes are compared by frequency only.\<close>

definition node_lt :: "TreeNode \<Rightarrow> TreeNode \<Rightarrow> bool" where
  "node_lt a b = (freq a < freq b)"

section \<open>The priority queue: Python's \<open>heapq\<close> on a list\<close>

text \<open>
  \<open>heappush\<close> and \<open>heappop\<close> of the standard library, as CPython defines them:
  \<^verbatim>\<open>
  def heappush(heap, item):
      heap.append(item)
      _siftdown(heap, 0, len(heap)-1)

  def heappop(heap):
      lastelt = heap.pop()    # raises appropriate IndexError if heap is empty
      if heap:
          returnitem = heap[0]
          heap[0] = lastelt
          _siftup(heap, 0)
          return returnitem
      return lastelt

  def _siftdown(heap, startpos, pos):
      newitem = heap[pos]
      while pos > startpos:
          parentpos = (pos - 1) >> 1
          parent = heap[parentpos]
          if newitem < parent:
              heap[pos] = parent
              pos = parentpos
              continue
          break
      heap[pos] = newitem

  def _siftup(heap, pos):
      endpos = len(heap)
      startpos = pos
      newitem = heap[pos]
      childpos = 2*pos + 1
      while childpos < endpos:
          rightpos = childpos + 1
          if rightpos < endpos and not heap[childpos] < heap[rightpos]:
              childpos = rightpos
          heap[pos] = heap[childpos]
          pos = childpos
          childpos = 2*pos + 1
      heap[pos] = newitem
      _siftdown(heap, startpos, pos)
  \<close>
  The list is passed and returned. Every index the two sift loops read or write is below
  the length of the list (\<open>pos\<close> starts in range, a parent position is smaller, a child
  position is tested against \<open>endpos\<close>), so no access is out of range.
\<close>

function siftdown_loop :: "TreeNode list \<Rightarrow> TreeNode \<Rightarrow> nat \<Rightarrow> nat \<Rightarrow> TreeNode list" where
  "siftdown_loop heap newitem startpos pos =
     (if pos > startpos \<and> node_lt newitem (heap ! ((pos - 1) div 2))
      then siftdown_loop (heap[pos := heap ! ((pos - 1) div 2)]) newitem startpos ((pos - 1) div 2)
      else heap[pos := newitem])"
  by pat_completeness auto
termination
  by (relation "measure (\<lambda>(heap, newitem, startpos, pos). pos)") auto

declare siftdown_loop.simps [simp del]

definition siftdown :: "TreeNode list \<Rightarrow> nat \<Rightarrow> nat \<Rightarrow> TreeNode list" where
  "siftdown heap startpos pos = siftdown_loop heap (heap ! pos) startpos pos"

text \<open>The child that the loop of \<open>_siftup\<close> moves up: the right one unless the left one is smaller.\<close>

definition smaller_child :: "TreeNode list \<Rightarrow> nat \<Rightarrow> nat" where
  "smaller_child heap pos =
     (if 2 * pos + 2 < length heap \<and> \<not> node_lt (heap ! (2 * pos + 1)) (heap ! (2 * pos + 2))
      then 2 * pos + 2 else 2 * pos + 1)"

function siftup_loop :: "TreeNode list \<Rightarrow> nat \<Rightarrow> TreeNode list \<times> nat" where
  "siftup_loop heap pos =
     (if 2 * pos + 1 < length heap
      then siftup_loop (heap[pos := heap ! smaller_child heap pos]) (smaller_child heap pos)
      else (heap, pos))"
  by pat_completeness auto
termination
  by (relation "measure (\<lambda>(heap, pos). length heap - pos)")
     (auto simp: smaller_child_def)

declare siftup_loop.simps [simp del]

definition siftup :: "TreeNode list \<Rightarrow> nat \<Rightarrow> TreeNode list" where
  "siftup heap pos =
     (case siftup_loop heap pos of
        (heap', pos') \<Rightarrow> siftdown (heap'[pos' := heap ! pos]) pos pos')"

definition heappush :: "TreeNode list \<Rightarrow> TreeNode \<Rightarrow> TreeNode list" where
  "heappush heap item = siftdown (heap @ [item]) 0 (length heap)"

definition heappop :: "TreeNode list \<Rightarrow> error + (TreeNode \<times> TreeNode list)" where
  "heappop heap =
     (if heap = [] then Inl IndexError
      else if butlast heap \<noteq> []
        then Inr (butlast heap ! 0, siftup ((butlast heap)[0 := last heap]) 0)
        else Inr (last heap, butlast heap))"

section \<open>Frequency table\<close>

text \<open>
  A Python \<open>dict\<close> keeps its keys in insertion order, and the order in which
  \<open>freqs.items()\<close> is iterated decides the order of the pushes, so a dictionary is an
  association list with distinct keys: \<open>d[k] = v\<close> replaces the value in place when the key
  is present and appends the pair otherwise.
\<close>

fun dict_set :: "('k \<times> 'v) list \<Rightarrow> 'k \<Rightarrow> 'v \<Rightarrow> ('k \<times> 'v) list" where
  "dict_set [] k v = [(k, v)]"
| "dict_set ((k', v') # kvs) k v =
     (if k' = k then (k, v) # kvs else (k', v') # dict_set kvs k v)"

text \<open>\<open>freq_dict[char] += 1\<close> on a \<open>defaultdict(int)\<close>: a missing key reads as 0.\<close>

definition incr :: "(char \<times> nat) list \<Rightarrow> char \<Rightarrow> (char \<times> nat) list" where
  "incr d c = dict_set d c ((case map_of d c of None \<Rightarrow> 0 | Some n \<Rightarrow> n) + 1)"

definition make_dict :: "string \<Rightarrow> (char \<times> nat) list" where
  "make_dict data = foldl incr [] data"

section \<open>Building the tree\<close>

text \<open>
  The first loop of \<open>encode\<close>: one leaf per entry of the table, pushed in the order of
  \<open>freqs.items()\<close>. \<open>TreeNode(k, v)\<close> stores \<open>str(k)\<close>, the one-character string.
\<close>

definition init_heap :: "(char \<times> nat) list \<Rightarrow> TreeNode list" where
  "init_heap freqs = foldl (\<lambda>minheap (k, v). heappush minheap (new_node [k] v)) [] freqs"

text \<open>The parent of two popped nodes: letters concatenated, frequencies added.\<close>

definition merge_nodes :: "TreeNode \<Rightarrow> TreeNode \<Rightarrow> TreeNode" where
  "merge_nodes node1 node2 =
     TreeNode (letter node1 @ letter node2) (freq node1 + freq node2) (Some node1) (Some node2) []"

lemma length_siftdown_loop [simp]:
  "length (siftdown_loop heap newitem startpos pos) = length heap"
  by (induction heap newitem startpos pos rule: siftdown_loop.induct)
     (subst siftdown_loop.simps, simp)

lemma length_siftdown [simp]: "length (siftdown heap startpos pos) = length heap"
  by (simp add: siftdown_def)

lemma length_siftup_loop [simp]: "length (fst (siftup_loop heap pos)) = length heap"
  by (induction heap pos rule: siftup_loop.induct)
     (subst siftup_loop.simps, simp)

lemma length_siftup [simp]: "length (siftup heap pos) = length heap"
  using length_siftup_loop [of heap pos]
  by (cases "siftup_loop heap pos") (simp add: siftup_def)

lemma length_heappush [simp]: "length (heappush heap item) = Suc (length heap)"
  by (simp add: heappush_def)

lemma length_heappop:
  "heappop heap = Inr (x, heap') \<Longrightarrow> Suc (length heap') = length heap"
  by (cases heap rule: rev_cases) (auto simp: heappop_def split: if_splits)

text \<open>
  The \<open>while True\<close> loop of \<open>encode\<close>: pop two nodes (the second pop is evaluated after the
  first), make their parent, stop when its frequency is \<open>len(s)\<close>, push it otherwise.
  Each round shortens the list by one, so the loop ends, with the root or with the
  \<open>IndexError\<close> of a pop from the empty list.
\<close>

function build_loop :: "TreeNode list \<Rightarrow> nat \<Rightarrow> error + TreeNode" where
  "build_loop minheap n =
     (case heappop minheap of
        Inl e \<Rightarrow> Inl e
      | Inr (node1, heap1) \<Rightarrow>
          (case heappop heap1 of
             Inl e \<Rightarrow> Inl e
           | Inr (node2, heap2) \<Rightarrow>
               (if freq (merge_nodes node1 node2) = n then Inr (merge_nodes node1 node2)
                else build_loop (heappush heap2 (merge_nodes node1 node2)) n)))"
  by pat_completeness auto
termination
  by (relation "measure (\<lambda>(minheap, n). length minheap)")
     (auto dest!: length_heappop)

declare build_loop.simps [simp del]

text \<open>
  The merge loop as the specification words it: "Repeatedly pop the two nodes with
  smallest count, create an internal node whose children are the popped nodes with
  count = sum, and push it back, until one node remains: the root." It stops when the
  queue has exactly one element and knows nothing of the length of the input.
\<close>

function build_loop_spec :: "TreeNode list \<Rightarrow> error + TreeNode" where
  "build_loop_spec queue =
     (if length queue = 1 then Inr (hd queue)
      else
        (case heappop queue of
           Inl e \<Rightarrow> Inl e
         | Inr (node1, queue1) \<Rightarrow>
             (case heappop queue1 of
                Inl e \<Rightarrow> Inl e
              | Inr (node2, queue2) \<Rightarrow>
                  build_loop_spec (heappush queue2 (merge_nodes node1 node2)))))"
  by pat_completeness auto
termination
  by (relation "measure length") (auto dest!: length_heappop)

declare build_loop_spec.simps [simp del]

text \<open>
  The states of the queue at the head of the \<open>while True\<close> loop of \<open>encode\<close>: the first
  queue, and the queue after each round that did not \<open>break\<close>.
\<close>

inductive loop_state :: "TreeNode list \<Rightarrow> nat \<Rightarrow> TreeNode list \<Rightarrow> bool"
  for minheap0 :: "TreeNode list" and n :: nat where
  start: "loop_state minheap0 n minheap0"
| round: "loop_state minheap0 n minheap \<Longrightarrow>
          heappop minheap = Inr (node1, heap1) \<Longrightarrow>
          heappop heap1 = Inr (node2, heap2) \<Longrightarrow>
          freq (merge_nodes node1 node2) \<noteq> n \<Longrightarrow>
          loop_state minheap0 n (heappush heap2 (merge_nodes node1 node2))"

code_pred loop_state .

text \<open>
  Every node with a child has two, and its frequency is the sum of theirs.
\<close>

fun sums_ok :: "TreeNode option \<Rightarrow> bool" where
  "sums_ok None = True"
| "sums_ok (Some (TreeNode l f lt rt e)) =
     (if rt = None \<and> lt = None then True
      else
        (case (lt, rt) of
           (Some a, Some b) \<Rightarrow> f = freq a + freq b \<and> sums_ok lt \<and> sums_ok rt
         | _ \<Rightarrow> False))"

section \<open>Deriving the codes\<close>

text \<open>
  \<open>tree_dfs(node, curstr, leaves)\<close>. The Python sets \<open>node.encoding\<close> on every leaf it
  reaches and appends the leaf to the list \<open>leaves\<close>; the model returns the list, each leaf
  carrying its encoding. The right child is visited before the left one.
\<close>

fun tree_dfs :: "TreeNode option \<Rightarrow> string \<Rightarrow> TreeNode list \<Rightarrow> TreeNode list" where
  "tree_dfs None curstr leaves = leaves"
| "tree_dfs (Some (TreeNode l f lt rt e)) curstr leaves =
     (if rt = None \<and> lt = None then leaves @ [TreeNode l f lt rt curstr]
      else
        (let leaves1 = (if rt \<noteq> None then tree_dfs rt (curstr @ ''1'') leaves else leaves)
         in if lt \<noteq> None then tree_dfs lt (curstr @ ''0'') leaves1 else leaves1))"

text \<open>
  The loop over \<open>leaves\<close> that fills \<open>encoding_to_char\<close>, with its two assertions.
\<close>

fun fill_encoding_to_char ::
  "TreeNode list \<Rightarrow> (string \<times> string) list \<Rightarrow> error + (string \<times> string) list" where
  "fill_encoding_to_char [] encoding_to_char = Inr encoding_to_char"
| "fill_encoding_to_char (leaf # leaves) encoding_to_char =
     (if length (letter leaf) \<noteq> 1 then Inl AssertionError
      else if map_of encoding_to_char (encoding leaf) \<noteq> None then Inl AssertionError
      else fill_encoding_to_char leaves (dict_set encoding_to_char (encoding leaf) (letter leaf)))"

text \<open>The comprehension \<open>{v: k for k, v in d.items()}\<close>, used by \<open>encode\<close> and by \<open>decode\<close>.\<close>

definition invert_dict :: "('k \<times> 'v) list \<Rightarrow> ('v \<times> 'k) list" where
  "invert_dict d = foldl (\<lambda>acc (k, v). dict_set acc v k) [] d"

text \<open>Steps 3 and 4 of \<open>encode\<close>: from the root to \<open>char_to_encoding\<close>.\<close>

definition code_book :: "TreeNode \<Rightarrow> error + (string \<times> string) list" where
  "code_book parent_node =
     (case fill_encoding_to_char (tree_dfs (Some parent_node) [] []) [] of
        Inl e \<Rightarrow> Inl e
      | Inr encoding_to_char \<Rightarrow> Inr (invert_dict encoding_to_char))"

text \<open>
  \<open>[char_to_encoding[char] for char in s]\<close>: the lookups in the order of the input, the
  first missing key raising \<open>KeyError\<close>. Iterating over a \<open>str\<close> yields one-character strings.
\<close>

fun lookup_all :: "(string \<times> string) list \<Rightarrow> string \<Rightarrow> error + string list" where
  "lookup_all d [] = Inr []"
| "lookup_all d (c # cs) =
     (case map_of d [c] of
        None \<Rightarrow> Inl KeyError
      | Some e \<Rightarrow> (case lookup_all d cs of Inl err \<Rightarrow> Inl err | Inr es \<Rightarrow> Inr (e # es)))"

section \<open>Numerals: \<open>int(s, 2)\<close>, \<open>hex\<close>, \<open>int(s, 16)\<close> and \<open>bin\<close>\<close>

text \<open>
  Python's integers are unbounded; the numbers here are never negative. \<open>int(s, base)\<close> is
  modelled on the strings this program passes to it: binary digits for base 2, and for
  base 16 hexadecimal digits of either case after an optional \<open>0x\<close> or \<open>0X\<close>; the empty
  string and any other character give \<open>ValueError\<close>. (Python also accepts a sign,
  surrounding white space, underscores between digits and a \<open>0b\<close> prefix; no string built
  by \<open>encode\<close> contains any of them.)
\<close>

definition bin_val :: "char \<Rightarrow> nat option" where
  "bin_val c = map_of [(CHR ''0'', 0), (CHR ''1'', 1)] c"

definition hex_val :: "char \<Rightarrow> nat option" where
  "hex_val c =
     map_of
       [(CHR ''0'', 0), (CHR ''1'', 1), (CHR ''2'', 2), (CHR ''3'', 3), (CHR ''4'', 4),
        (CHR ''5'', 5), (CHR ''6'', 6), (CHR ''7'', 7), (CHR ''8'', 8), (CHR ''9'', 9),
        (CHR ''a'', 10), (CHR ''b'', 11), (CHR ''c'', 12), (CHR ''d'', 13), (CHR ''e'', 14),
        (CHR ''f'', 15), (CHR ''A'', 10), (CHR ''B'', 11), (CHR ''C'', 12), (CHR ''D'', 13),
        (CHR ''E'', 14), (CHR ''F'', 15)] c"

fun parse_digits :: "(char \<Rightarrow> nat option) \<Rightarrow> nat \<Rightarrow> string \<Rightarrow> nat \<Rightarrow> nat option" where
  "parse_digits val b [] acc = Some acc"
| "parse_digits val b (c # cs) acc =
     (case val c of None \<Rightarrow> None | Some d \<Rightarrow> parse_digits val b cs (acc * b + d))"

definition py_int2 :: "string \<Rightarrow> error + nat" where
  "py_int2 s =
     (if s = [] then Inl ValueError
      else case parse_digits bin_val 2 s 0 of None \<Rightarrow> Inl ValueError | Some n \<Rightarrow> Inr n)"

definition py_int16 :: "string \<Rightarrow> error + nat" where
  "py_int16 s =
     (let ds = (if take 2 s = ''0x'' \<or> take 2 s = ''0X'' then drop 2 s else s)
      in if ds = [] then Inl ValueError
         else case parse_digits hex_val 16 ds 0 of None \<Rightarrow> Inl ValueError | Some n \<Rightarrow> Inr n)"

definition digit_char :: "nat \<Rightarrow> char" where
  "digit_char d = ''0123456789abcdef'' ! d"

function bin_digits :: "nat \<Rightarrow> string" where
  "bin_digits n = (if n < 2 then [digit_char n] else bin_digits (n div 2) @ [digit_char (n mod 2)])"
  by pat_completeness auto
termination
  by (relation "measure id") auto

declare bin_digits.simps [simp del]

function hex_digits :: "nat \<Rightarrow> string" where
  "hex_digits n = (if n < 16 then [digit_char n] else hex_digits (n div 16) @ [digit_char (n mod 16)])"
  by pat_completeness auto
termination
  by (relation "measure id") auto

declare hex_digits.simps [simp del]

definition py_bin :: "nat \<Rightarrow> string" where
  "py_bin n = ''0b'' @ bin_digits n"

definition py_hex :: "nat \<Rightarrow> string" where
  "py_hex n = ''0x'' @ hex_digits n"

section \<open>\<open>encode\<close>\<close>

text \<open>
  The loop \<open>while bin_str != int_str: bin_str = '0' + bin_str; num_zeros_to_add += 1\<close>.
  Nothing bounds it: started on a \<open>bin_str\<close> that is no suffix of \<open>int_str\<close> after zeros it
  runs forever, which is the value \<open>None\<close>.
\<close>

partial_function (option) pad_loop :: "string \<Rightarrow> string \<Rightarrow> nat \<Rightarrow> (string \<times> nat) option" where
  "pad_loop bin_str int_str num_zeros_to_add =
     (if bin_str \<noteq> int_str then pad_loop (CHR ''0'' # bin_str) int_str (num_zeros_to_add + 1)
      else Some (bin_str, num_zeros_to_add))"

declare pad_loop.simps [code]

text \<open>
  The bit string to the pair \<open>(hex_str, num_zeros_to_add)\<close>, with the final assertion
  \<open>bin_str == int_str\<close>.
\<close>

definition pack :: "string \<Rightarrow> (error + string \<times> nat) option" where
  "pack int_str =
     (case py_int2 int_str of
        Inl e \<Rightarrow> Some (Inl e)
      | Inr n \<Rightarrow>
          (case py_int16 (py_hex n) of
             Inl e \<Rightarrow> Some (Inl e)
           | Inr m \<Rightarrow>
               (case pad_loop (drop 2 (py_bin m)) int_str 0 of
                  None \<Rightarrow> None
                | Some (bin_str, num_zeros_to_add) \<Rightarrow>
                    if bin_str = int_str then Some (Inr (py_hex n, num_zeros_to_add))
                    else Some (Inl AssertionError))))"

definition build_tree :: "string \<Rightarrow> error + TreeNode" where
  "build_tree s = build_loop (init_heap (make_dict s)) (length s)"

text \<open>The bit string \<open>int_str\<close> that \<open>encode\<close> joins from the codes of the input's characters.\<close>

definition int_str_of :: "(string \<times> string) list \<Rightarrow> string \<Rightarrow> error + string" where
  "int_str_of char_to_encoding s =
     (case lookup_all char_to_encoding s of Inl e \<Rightarrow> Inl e | Inr es \<Rightarrow> Inr (concat es))"

text \<open>
  \<open>encode\<close>, from the contents \<open>s\<close> of the input file to the tuple
  \<open>(hex_str, char_to_encoding, num_zeros_to_add)\<close> that it pickles into \<open>compressed.txt\<close>.
  Reading and writing the files is left out; \<open>pickle.load\<close> returns what \<open>pickle.dump\<close>
  was given, so the assertion \<open>mapping == char_to_encoding\<close> holds. The result is \<open>None\<close>
  when the padding loop does not end, \<open>Some (Inl e)\<close> when the exception \<open>e\<close> is raised.
\<close>

definition encode :: "string \<Rightarrow> (error + string \<times> (string \<times> string) list \<times> nat) option" where
  "encode s =
     (case build_tree s of
        Inl e \<Rightarrow> Some (Inl e)
      | Inr parent_node \<Rightarrow>
          (case code_book parent_node of
             Inl e \<Rightarrow> Some (Inl e)
           | Inr char_to_encoding \<Rightarrow>
               (case int_str_of char_to_encoding s of
                  Inl e \<Rightarrow> Some (Inl e)
                | Inr int_str \<Rightarrow>
                    (case pack int_str of
                       None \<Rightarrow> None
                     | Some (Inl e) \<Rightarrow> Some (Inl e)
                     | Some (Inr (hex_str, num_zeros_to_add)) \<Rightarrow>
                         Some (Inr (hex_str, char_to_encoding, num_zeros_to_add))))))"

section \<open>\<open>decode\<close>\<close>

text \<open>The bit string that \<open>decode\<close> rebuilds from \<open>hex_str\<close> and \<open>num_zeros_to_add\<close>.\<close>

definition unpack_bits :: "string \<Rightarrow> nat \<Rightarrow> error + string" where
  "unpack_bits hex_str num_zeros_to_add =
     (case py_int16 hex_str of
        Inl e \<Rightarrow> Inl e
      | Inr n \<Rightarrow> Inr (replicate num_zeros_to_add CHR ''0'' @ drop 2 (py_bin n)))"

text \<open>The slice \<open>s[i:j]\<close> for \<open>0 \<le> i\<close> and \<open>0 \<le> j\<close>: empty when \<open>j \<le> i\<close>, cut at the end of \<open>s\<close>.\<close>

definition slice :: "'a list \<Rightarrow> nat \<Rightarrow> nat \<Rightarrow> 'a list" where
  "slice s i j = take (j - i) (drop i s)"

text \<open>
  The inner loop \<open>while j < len(bin_str) and bin_str[i:j] not in encoding_to_char.keys(): j += 1\<close>;
  it returns the final \<open>j\<close>.
\<close>

function scan_code :: "(string \<times> string) list \<Rightarrow> string \<Rightarrow> nat \<Rightarrow> nat \<Rightarrow> nat" where
  "scan_code encoding_to_char bin_str i j =
     (if j < length bin_str \<and> map_of encoding_to_char (slice bin_str i j) = None
      then scan_code encoding_to_char bin_str i (j + 1) else j)"
  by pat_completeness auto
termination
  by (relation "measure (\<lambda>(encoding_to_char, bin_str, i, j). length bin_str - j)") auto

declare scan_code.simps [simp del]

lemma scan_code_ge: "j \<le> scan_code encoding_to_char bin_str i j"
proof (induction encoding_to_char bin_str i j rule: scan_code.induct)
  case (1 encoding_to_char bin_str i j)
  show ?case
  proof (cases "j < length bin_str \<and> map_of encoding_to_char (slice bin_str i j) = None")
    case True
    with "1" have "j + 1 \<le> scan_code encoding_to_char bin_str i (j + 1)" by simp
    with True show ?thesis by (subst scan_code.simps) simp
  next
    case False
    then show ?thesis by (subst scan_code.simps) auto
  qed
qed

text \<open>
  The outer loop \<open>while i < len(bin_str)\<close> of \<open>decode\<close>, from position \<open>i\<close> with the output
  \<open>original\<close> so far. It leaves by the \<open>break\<close> when the inner loop has reached the end of
  the bit string.
\<close>

function decode_loop :: "(string \<times> string) list \<Rightarrow> string \<Rightarrow> nat \<Rightarrow> string \<Rightarrow> error + string" where
  "decode_loop encoding_to_char bin_str i original =
     (if i < length bin_str then
        (if scan_code encoding_to_char bin_str i (i + 1) \<ge> length bin_str then Inr original
         else
           (case map_of encoding_to_char
                   (slice bin_str i (scan_code encoding_to_char bin_str i (i + 1))) of
              None \<Rightarrow> Inl KeyError
            | Some l \<Rightarrow>
                decode_loop encoding_to_char bin_str
                  (scan_code encoding_to_char bin_str i (i + 1)) (original @ l)))
      else Inr original)"
  by pat_completeness auto
termination
proof (relation "measure (\<lambda>(encoding_to_char, bin_str, i, original). length bin_str - i)")
  show "wf (measure (\<lambda>(encoding_to_char, bin_str, i, original). length bin_str - i))"
    by simp
next
  fix encoding_to_char :: "(string \<times> string) list" and bin_str :: string
    and i :: nat and original l :: string
  assume "i < length bin_str"
    and "\<not> length bin_str \<le> scan_code encoding_to_char bin_str i (i + 1)"
  moreover have "i + 1 \<le> scan_code encoding_to_char bin_str i (i + 1)"
    by (rule scan_code_ge)
  ultimately show
    "((encoding_to_char, bin_str, scan_code encoding_to_char bin_str i (i + 1), original @ l),
      (encoding_to_char, bin_str, i, original))
     \<in> measure (\<lambda>(encoding_to_char, bin_str, i, original). length bin_str - i)"
    by simp
qed

declare decode_loop.simps [simp del]

text \<open>
  \<open>decode\<close>, from the unpickled tuple to the text written to \<open>decoded.txt\<close>: the decoded
  characters and a newline.
\<close>

definition decode :: "string \<times> (string \<times> string) list \<times> nat \<Rightarrow> error + string" where
  "decode p =
     (case p of (hex_str, char_to_encoding, num_zeros_to_add) \<Rightarrow>
        (case unpack_bits hex_str num_zeros_to_add of
           Inl e \<Rightarrow> Inl e
         | Inr bin_str \<Rightarrow>
             (case decode_loop (invert_dict char_to_encoding) bin_str 0 [] of
                Inl e \<Rightarrow> Inl e
              | Inr original \<Rightarrow> Inr (original @ [CHR 0x0A]))))"

section \<open>The priority queue keeps its elements\<close>

text \<open>
  Neither sift loop loses or duplicates a node: each works with a hole at \<open>pos\<close> that the
  held item fills in the end. So a push adds its item to the multiset of the list and a
  pop removes the returned one; a pop fails exactly on the empty list.
\<close>

lemma mset_update_move:
  assumes "i < length xs" "j < length xs"
  shows "mset (xs[i := xs ! j, j := v]) = mset (xs[i := v])"
proof (cases "i = j")
  case True
  then show ?thesis by simp
next
  case False
  have "mset (xs[i := xs ! j, j := v]) =
        add_mset v (mset (xs[i := xs ! j]) - {#xs[i := xs ! j] ! j#})"
    using assms by (simp add: mset_update)
  also have "xs[i := xs ! j] ! j = xs ! j" using False by simp
  also have "mset (xs[i := xs ! j]) = add_mset (xs ! j) (mset xs - {#xs ! i#})"
    using assms by (simp add: mset_update)
  finally show ?thesis using assms by (simp add: mset_update)
qed

lemma mset_siftdown_loop:
  "pos < length heap \<Longrightarrow>
   mset (siftdown_loop heap newitem startpos pos) = mset (heap[pos := newitem])"
proof (induction heap newitem startpos pos rule: siftdown_loop.induct)
  case (1 heap newitem startpos pos)
  show ?case
  proof (cases "pos > startpos \<and> node_lt newitem (heap ! ((pos - 1) div 2))")
    case True
    then have lt: "(pos - 1) div 2 < length heap" using "1.prems" by simp
    have "mset (siftdown_loop heap newitem startpos pos) =
          mset (siftdown_loop (heap[pos := heap ! ((pos - 1) div 2)]) newitem startpos
                  ((pos - 1) div 2))"
      using True by (subst siftdown_loop.simps) simp
    also have "\<dots> = mset (heap[pos := heap ! ((pos - 1) div 2), (pos - 1) div 2 := newitem])"
      using "1.IH" [OF True] lt by simp
    also have "\<dots> = mset (heap[pos := newitem])"
      using "1.prems" lt by (rule mset_update_move)
    finally show ?thesis .
  next
    case False
    then show ?thesis by (subst siftdown_loop.simps) auto
  qed
qed

lemma mset_siftdown: "pos < length heap \<Longrightarrow> mset (siftdown heap startpos pos) = mset heap"
  by (simp add: siftdown_def mset_siftdown_loop)

lemma smaller_child_bounds:
  "2 * pos + 1 < length heap \<Longrightarrow>
   pos < smaller_child heap pos \<and> smaller_child heap pos < length heap"
  by (simp add: smaller_child_def)

lemma siftup_loop_hole:
  "pos < length heap \<Longrightarrow> siftup_loop heap pos = (heap', pos') \<Longrightarrow>
   pos' < length heap \<and> length heap' = length heap \<and>
   mset (heap'[pos' := x]) = mset (heap[pos := x])"
proof (induction heap pos arbitrary: heap' pos' rule: siftup_loop.induct)
  case (1 heap pos)
  show ?case
  proof (cases "2 * pos + 1 < length heap")
    case True
    let ?c = "smaller_child heap pos"
    have c: "pos < ?c" "?c < length heap" using smaller_child_bounds [OF True] by simp_all
    have rec: "siftup_loop (heap[pos := heap ! ?c]) ?c = (heap', pos')"
      using "1.prems"(2) True by (subst (asm) siftup_loop.simps) simp
    have "pos' < length (heap[pos := heap ! ?c]) \<and>
          length heap' = length (heap[pos := heap ! ?c]) \<and>
          mset (heap'[pos' := x]) = mset (heap[pos := heap ! ?c, ?c := x])"
      using "1.IH" [OF True _ rec] c by simp
    moreover have "mset (heap[pos := heap ! ?c, ?c := x]) = mset (heap[pos := x])"
      using "1.prems"(1) c(2) by (rule mset_update_move)
    ultimately show ?thesis by simp
  next
    case False
    then have "heap' = heap" "pos' = pos"
      using "1.prems"(2) by (subst (asm) siftup_loop.simps, simp)+
    then show ?thesis using "1.prems"(1) by simp
  qed
qed

lemma mset_siftup: "pos < length heap \<Longrightarrow> mset (siftup heap pos) = mset heap"
proof -
  assume pos: "pos < length heap"
  obtain heap' pos' where r: "siftup_loop heap pos = (heap', pos')"
    by (cases "siftup_loop heap pos")
  from siftup_loop_hole [OF pos r, of "heap ! pos"]
  have h: "pos' < length heap'" "mset (heap'[pos' := heap ! pos]) = mset heap"
    by simp_all
  show ?thesis using h by (simp add: siftup_def r mset_siftdown)
qed

lemma mset_heappush: "mset (heappush heap item) = add_mset item (mset heap)"
  by (simp add: heappush_def mset_siftdown)

lemma heappop_empty: "heappop [] = Inl IndexError"
  by (simp add: heappop_def)

lemma heappop_nonempty: "heap \<noteq> [] \<Longrightarrow> \<exists>x heap'. heappop heap = Inr (x, heap')"
  by (simp add: heappop_def)

lemma mset_heappop:
  assumes "heappop heap = Inr (x, heap')"
  shows "mset heap = add_mset x (mset heap')"
proof (cases heap rule: rev_cases)
  case Nil
  with assms show ?thesis by (simp add: heappop_def)
next
  case (snoc b l)
  show ?thesis
  proof (cases "b = []")
    case True
    with snoc assms show ?thesis by (auto simp: heappop_def)
  next
    case False
    then obtain y ys where b: "b = y # ys" by (cases b) auto
    have "x = y" "heap' = siftup (b[0 := l]) 0"
      using assms snoc b by (auto simp: heappop_def)
    moreover have "mset (siftup (b[0 := l]) 0) = mset (b[0 := l])"
      using b by (intro mset_siftup) simp
    ultimately show ?thesis using snoc b by simp
  qed
qed

lemma heappush_Nil: "heappush [] item = [item]"
  by (simp add: heappush_def siftdown_def siftdown_loop.simps)

section \<open>The frequency table\<close>

text \<open>
  Assignment to a key reads back, keeps the other keys and their order, and appends a
  fresh key. Counting a character adds one to the sum of the counts, so the table of a
  string has the string's characters as its distinct keys, positive counts, and the
  length of the string as the sum of its counts.
\<close>

lemma map_of_dict_set: "map_of (dict_set d k v) = (map_of d)(k \<mapsto> v)"
  by (induction d k v rule: dict_set.induct) auto

lemma dict_set_fresh: "k \<notin> fst ` set d \<Longrightarrow> dict_set d k v = d @ [(k, v)]"
  by (induction d k v rule: dict_set.induct) auto

lemma keys_dict_set:
  "map fst (dict_set d k v) = (if k \<in> fst ` set d then map fst d else map fst d @ [k])"
  by (induction d k v rule: dict_set.induct) auto

lemma set_dict_set: "set (dict_set d k v) \<subseteq> insert (k, v) (set d)"
  by (induction d k v rule: dict_set.induct) auto

lemma distinct_dict_set: "distinct (map fst d) \<Longrightarrow> distinct (map fst (dict_set d k v))"
  by (simp add: keys_dict_set)

lemma sum_incr: "sum_list (map snd (incr d c)) = Suc (sum_list (map snd d))"
  unfolding incr_def by (induction d) auto

lemma keys_incr: "set (map fst (incr d c)) = insert c (set (map fst d))"
  unfolding incr_def by (auto simp: keys_dict_set)

lemma distinct_incr: "distinct (map fst d) \<Longrightarrow> distinct (map fst (incr d c))"
  unfolding incr_def by (rule distinct_dict_set)

lemma positive_incr:
  assumes "\<And>p. p \<in> set d \<Longrightarrow> 0 < snd p" and "p \<in> set (incr d c)"
  shows "0 < snd p"
proof -
  have "set (incr d c) \<subseteq>
        insert (c, (case map_of d c of None \<Rightarrow> 0 | Some n \<Rightarrow> n) + 1) (set d)"
    unfolding incr_def by (rule set_dict_set)
  then have "p = (c, (case map_of d c of None \<Rightarrow> 0 | Some n \<Rightarrow> n) + 1) \<or> p \<in> set d"
    using assms(2) by blast
  then show ?thesis using assms(1) by (cases "p \<in> set d") auto
qed

lemma foldl_incr_sum:
  "sum_list (map snd (foldl incr d s)) = sum_list (map snd d) + length s"
  by (induction s arbitrary: d) (simp_all add: sum_incr)

lemma foldl_incr_keys: "set (map fst (foldl incr d s)) = set (map fst d) \<union> set s"
proof (induction s arbitrary: d)
  case Nil
  then show ?case by simp
next
  case (Cons c s)
  have "set (map fst (foldl incr (incr d c) s)) = insert c (set (map fst d)) \<union> set s"
    unfolding Cons.IH keys_incr ..
  then show ?case by simp
qed

lemma foldl_incr_distinct:
  "distinct (map fst d) \<Longrightarrow> distinct (map fst (foldl incr d s))"
  by (induction s arbitrary: d) (simp_all add: distinct_incr)

lemma foldl_incr_positive:
  "(\<And>p. p \<in> set d \<Longrightarrow> 0 < snd p) \<Longrightarrow> p \<in> set (foldl incr d s) \<Longrightarrow> 0 < snd p"
proof (induction s arbitrary: d)
  case Nil
  then show ?case by simp
next
  case (Cons c s)
  show ?case
  proof (rule Cons.IH [of "incr d c"])
    show "\<And>q. q \<in> set (incr d c) \<Longrightarrow> 0 < snd q"
      using Cons.prems(1) by (rule positive_incr)
    show "p \<in> set (foldl incr (incr d c) s)" using Cons.prems(2) by simp
  qed
qed

lemma make_dict_sum: "sum_list (map snd (make_dict s)) = length s"
  by (simp add: make_dict_def foldl_incr_sum)

lemma make_dict_keys: "set (map fst (make_dict s)) = set s"
  using foldl_incr_keys [of "[]" s] by (simp add: make_dict_def)

lemma make_dict_distinct: "distinct (map fst (make_dict s))"
  by (simp add: make_dict_def foldl_incr_distinct)

lemma make_dict_positive: "(k, v) \<in> set (make_dict s) \<Longrightarrow> 0 < v"
  using foldl_incr_positive [of "[]" "(k, v)" s] by (simp add: make_dict_def)

lemma length_make_dict: "length (make_dict s) = card (set s)"
proof -
  have "length (make_dict s) = length (map fst (make_dict s))" by simp
  also have "\<dots> = card (set (map fst (make_dict s)))"
    using make_dict_distinct [of s] by (rule distinct_card [symmetric])
  finally show ?thesis by (simp only: make_dict_keys)
qed

lemma foldl_incr_single: "foldl incr [(c, m)] (replicate k c) = [(c, m + k)]"
  by (induction k arbitrary: m) (simp_all add: incr_def)

lemma make_dict_replicate: "make_dict (replicate (Suc n) c) = [(c, Suc n)]"
  by (simp add: make_dict_def incr_def foldl_incr_single)

section \<open>The first queue and the degenerate inputs\<close>

lemma mset_init_heap_acc:
  "mset (foldl (\<lambda>minheap (k, v). heappush minheap (new_node [k] v)) h freqs) =
   mset h + mset (map (\<lambda>(k, v). new_node [k] v) freqs)"
  by (induction freqs arbitrary: h) (auto simp: mset_heappush)

lemma mset_init_heap:
  "mset (init_heap freqs) = mset (map (\<lambda>(k, v). new_node [k] v) freqs)"
  by (simp add: init_heap_def mset_init_heap_acc)

lemma length_init_heap: "length (init_heap freqs) = length freqs"
  using arg_cong [OF mset_init_heap [of freqs], of size] by simp

lemma build_loop_single: "build_loop [x] n = Inl IndexError"
  by (subst build_loop.simps) (simp add: heappop_def)

lemma build_loop_Nil: "build_loop [] n = Inl IndexError"
  by (subst build_loop.simps) (simp add: heappop_def)

text \<open>
  Claim C5, as the code has it. The claim says that the empty input is encoded to an empty
  payload and an empty code book. \<open>encode\<close> has no such case (its comment assumes at least
  two distinct characters): the table of the empty string is empty, no leaf is pushed, and
  the first \<open>heappop\<close> of the merge loop raises \<open>IndexError\<close>. Nothing is written, so
  there is nothing to decode.
\<close>

theorem encode_empty_raises:
  "make_dict [] = [] \<and> init_heap (make_dict []) = [] \<and>
   build_tree [] = Inl IndexError \<and> encode [] = Some (Inl IndexError)"
  by (simp add: encode_def build_tree_def make_dict_def init_heap_def build_loop_Nil)

text \<open>The claim C5 as stated fails: encoding the empty string gives no payload and no book.\<close>

theorem encode_empty_counterexample: "encode [] = Some (Inl IndexError)"
  by code_simp

text \<open>
  Claim C2, as the code has it. The claim says that an input of one distinct character,
  repeated \<open>n \<ge> 1\<close> times, gets a one-bit code and an \<open>n\<close>-bit payload. \<open>encode\<close> has
  no such case (its comment assumes at least two distinct characters): the queue holds one
  leaf, the first \<open>heappop\<close> of the merge loop returns it and the second one raises
  \<open>IndexError\<close>. So \<open>encode\<close> does not loop forever; it stops with that exception and
  produces neither book nor payload.
\<close>

theorem encode_single_symbol_raises:
  "0 < n \<Longrightarrow> encode (replicate n c) = Some (Inl IndexError)"
proof -
  assume "0 < n"
  then obtain m where n: "n = Suc m" by (cases n) auto
  have "init_heap (make_dict (replicate n c)) = [new_node [c] n]"
    unfolding n make_dict_replicate by (simp add: init_heap_def heappush_Nil)
  then have "build_tree (replicate n c) = Inl IndexError"
    by (simp add: build_tree_def build_loop_single)
  then show ?thesis by (simp add: encode_def)
qed

theorem encode_single_symbol_raises_witness:
  "0 < (4::nat) \<and> encode (replicate 4 CHR ''a'') = Some (Inl IndexError)"
  using encode_single_symbol_raises [of 4 "CHR ''a''"] by simp

text \<open>The claim C2 as stated fails on its own example: \<open>aaaa\<close> is not encoded.\<close>

theorem encode_aaaa_counterexample: "encode ''aaaa'' = Some (Inl IndexError)"
  by code_simp

section \<open>The scan loops of \<open>decode\<close>\<close>

text \<open>
  The inner loop stops at the first position \<open>k\<close> that is the end of the bit string or
  ends a slice found in the book. The outer loop therefore never looks up a missing key:
  it always returns an output.
\<close>

lemma scan_code_eq:
  "j \<le> k \<Longrightarrow>
   (\<And>j'. j \<le> j' \<Longrightarrow> j' < k \<Longrightarrow> j' < length bin_str \<and> map_of e2c (slice bin_str i j') = None) \<Longrightarrow>
   \<not> (k < length bin_str \<and> map_of e2c (slice bin_str i k) = None) \<Longrightarrow>
   scan_code e2c bin_str i j = k"
proof (induction "k - j" arbitrary: j)
  case 0
  then have "j = k" by simp
  with "0.prems"(3) show ?case by (subst scan_code.simps) auto
next
  case (Suc d)
  then have lt: "j < k" by simp
  have cont: "j < length bin_str \<and> map_of e2c (slice bin_str i j) = None"
    using Suc.prems(2) [of j] lt by simp
  have "scan_code e2c bin_str i (j + 1) = k"
  proof (rule Suc.hyps(1))
    show "d = k - (j + 1)" using Suc.hyps(2) by simp
    show "j + 1 \<le> k" using lt by simp
    show "\<And>j'. j + 1 \<le> j' \<Longrightarrow> j' < k \<Longrightarrow>
            j' < length bin_str \<and> map_of e2c (slice bin_str i j') = None"
      using Suc.prems(2) by simp
    show "\<not> (k < length bin_str \<and> map_of e2c (slice bin_str i k) = None)"
      by (rule Suc.prems(3))
  qed
  with cont show ?case by (subst scan_code.simps) simp
qed

lemma scan_code_exit:
  "\<not> (scan_code e2c bin_str i j < length bin_str \<and>
      map_of e2c (slice bin_str i (scan_code e2c bin_str i j)) = None)"
proof (induction e2c bin_str i j rule: scan_code.induct)
  case (1 e2c bin_str i j)
  show ?case
  proof (cases "j < length bin_str \<and> map_of e2c (slice bin_str i j) = None")
    case True
    then have "scan_code e2c bin_str i j = scan_code e2c bin_str i (j + 1)"
      by (subst scan_code.simps) simp
    with "1" [OF True] show ?thesis by simp
  next
    case False
    then have "scan_code e2c bin_str i j = j"
      by (subst scan_code.simps) auto
    with False show ?thesis by simp
  qed
qed

lemma decode_loop_no_error: "\<exists>out. decode_loop e2c bin_str i original = Inr out"
proof (induction e2c bin_str i original rule: decode_loop.induct)
  case (1 e2c bin_str i original)
  let ?j = "scan_code e2c bin_str i (i + 1)"
  show ?case
  proof (cases "i < length bin_str \<and> \<not> length bin_str \<le> ?j")
    case False
    then show ?thesis by (subst decode_loop.simps) auto
  next
    case True
    then have "map_of e2c (slice bin_str i ?j) \<noteq> None"
      using scan_code_exit [of e2c bin_str i "i + 1"] by simp
    then obtain l where l: "map_of e2c (slice bin_str i ?j) = Some l" by auto
    have "\<exists>out. decode_loop e2c bin_str ?j (original @ l) = Inr out"
      using "1" [of l] True l by simp
    then show ?thesis using True l by (subst decode_loop.simps) simp
  qed
qed

lemma decode_loop_break:
  assumes "i < length bin_str"
    and "\<And>j. i < j \<Longrightarrow> j < length bin_str \<Longrightarrow> map_of e2c (slice bin_str i j) = None"
  shows "decode_loop e2c bin_str i original = Inr original"
proof -
  have "scan_code e2c bin_str i (i + 1) = length bin_str"
    using assms by (intro scan_code_eq) auto
  then show ?thesis by (subst decode_loop.simps) simp
qed

text \<open>
  Claim C3, as the code has it. The claim says that \<open>decode\<close> fails with an explicit
  error when the scan runs out of bits without a match, and never returns partial output.
  \<open>decode\<close> has no error path in its scan: when no slice \<open>bin_str[i:j]\<close> with
  \<open>i < j \<le> len(bin_str)\<close> is in the book, so that the remaining bits match no code at
  all, the inner loop reaches the end of the bit string, the outer loop leaves by
  \<open>break\<close>, and \<open>decode\<close> returns the characters decoded so far. On every bit string and
  every book the scan returns an output and raises nothing.
\<close>

theorem decode_loop_truncates:
  "(i < length bin_str \<and>
    (\<forall>j. i < j \<and> j \<le> length bin_str \<longrightarrow> map_of e2c (slice bin_str i j) = None) \<longrightarrow>
      decode_loop e2c bin_str i original = Inr original) \<and>
   (\<exists>out. decode_loop e2c bin_str i original = Inr out)"
proof (intro conjI impI)
  assume a: "i < length bin_str \<and>
    (\<forall>j. i < j \<and> j \<le> length bin_str \<longrightarrow> map_of e2c (slice bin_str i j) = None)"
  show "decode_loop e2c bin_str i original = Inr original"
  proof (rule decode_loop_break)
    show "i < length bin_str" using a by (rule conjunct1)
    fix j assume "i < j" and "j < length bin_str"
    then have "i < j \<and> j \<le> length bin_str" by simp
    with a show "map_of e2c (slice bin_str i j) = None" by blast
  qed
next
  show "\<exists>out. decode_loop e2c bin_str i original = Inr out"
    by (rule decode_loop_no_error)
qed

theorem decode_loop_truncates_witness:
  "1 < length ''011'' \<and>
   map_of [(''0'', ''a''), (''110'', ''b'')] (slice ''011'' 1 2) = None \<and>
   map_of [(''0'', ''a''), (''110'', ''b'')] (slice ''011'' 1 3) = None \<and>
   decode_loop [(''0'', ''a''), (''110'', ''b'')] ''011'' 1 ''a'' = Inr ''a''"
proof -
  have s2: "map_of [(''0'', ''a''), (''110'', ''b'')] (slice ''011'' 1 2) = None"
    by (simp add: slice_def)
  have s3: "map_of [(''0'', ''a''), (''110'', ''b'')] (slice ''011'' 1 3) = None"
    by (simp add: slice_def)
  have "\<forall>j. 1 < j \<and> j \<le> length ''011'' \<longrightarrow>
          map_of [(''0'', ''a''), (''110'', ''b'')] (slice ''011'' 1 j) = None"
  proof (intro allI impI)
    fix j :: nat
    assume "1 < j \<and> j \<le> length ''011''"
    then have "j = 2 \<or> j = 3" by auto
    then show "map_of [(''0'', ''a''), (''110'', ''b'')] (slice ''011'' 1 j) = None"
      using s2 s3 by blast
  qed
  then show ?thesis
    using decode_loop_truncates [of 1 "''011''" "[(''0'', ''a''), (''110'', ''b'')]" "''a''"]
      s2 s3 by simp
qed

text \<open>
  The claim C3 as stated fails: with the book \<open>{a: 0, b: 11}\<close> and the bits \<open>01\<close> (the
  number 1 after one added zero), the last bit matches no code, and \<open>decode\<close> writes the
  partial output \<open>a\<close> and a newline without any error.
\<close>

theorem decode_truncates_counterexample:
  "decode (''0x1'', [(''a'', ''0''), (''b'', ''11'')], 1) = Inr (''a'' @ [CHR 0x0A])"
  by code_simp

section \<open>The numerals round trip\<close>

text \<open>
  \<open>int(hex(n), 16)\<close> is \<open>n\<close>. A non-empty string of binary digits is the binary numeral
  of its value after some leading zeros, and the padding loop, started on that numeral,
  counts exactly those zeros. So what \<open>decode\<close> rebuilds from the pair that \<open>pack\<close>
  returns is the packed bit string.
\<close>

lemma parse_digits_append:
  "parse_digits val b (xs @ ys) acc =
   (case parse_digits val b xs acc of None \<Rightarrow> None | Some a \<Rightarrow> parse_digits val b ys a)"
  by (induction xs arbitrary: acc) (auto split: option.splits)

lemma hex_val_digit_char: "d < 16 \<Longrightarrow> hex_val (digit_char d) = Some d"
proof -
  assume "d < 16"
  then have "d = 0 \<or> d = 1 \<or> d = 2 \<or> d = 3 \<or> d = 4 \<or> d = 5 \<or> d = 6 \<or> d = 7 \<or>
      d = 8 \<or> d = 9 \<or> d = 10 \<or> d = 11 \<or> d = 12 \<or> d = 13 \<or> d = 14 \<or> d = 15"
    by arith
  then show ?thesis
    by (elim disjE) (simp_all add: hex_val_def digit_char_def)
qed

lemma bin_val_Some: "bin_val c = Some d \<Longrightarrow> d < 2 \<and> c = digit_char d"
  by (auto simp: bin_val_def digit_char_def split: if_splits)

lemma hex_digits_not_Nil: "hex_digits n \<noteq> []"
  by (subst hex_digits.simps) simp

lemma parse_hex_digits: "parse_digits hex_val 16 (hex_digits n) 0 = Some n"
proof (induction n rule: hex_digits.induct)
  case (1 n)
  show ?case
  proof (cases "n < 16")
    case True
    then show ?thesis
      by (subst hex_digits.simps) (simp add: hex_val_digit_char)
  next
    case False
    have "hex_digits n = hex_digits (n div 16) @ [digit_char (n mod 16)]"
      using False by (subst hex_digits.simps) simp
    then show ?thesis
      using "1" [OF False] by (simp add: parse_digits_append hex_val_digit_char)
  qed
qed

lemma py_int16_py_hex: "py_int16 (py_hex n) = Inr n"
  by (simp add: py_int16_def py_hex_def hex_digits_not_Nil parse_hex_digits)

lemma bin_digits_small: "n < 2 \<Longrightarrow> bin_digits n = [digit_char n]"
  by (subst bin_digits.simps) simp

lemma bin_digits_step:
  "0 < m \<Longrightarrow> d < 2 \<Longrightarrow> bin_digits (m * 2 + d) = bin_digits m @ [digit_char d]"
  by (subst bin_digits.simps) simp

lemma parse_bits_zeros:
  "s \<noteq> [] \<Longrightarrow> parse_digits bin_val 2 s 0 = Some n \<Longrightarrow>
   \<exists>k. s = replicate k CHR ''0'' @ bin_digits n"
proof (induction s arbitrary: n rule: rev_induct)
  case Nil
  then show ?case by simp
next
  case (snoc c s')
  from snoc.prems(2) obtain m d where
    m: "parse_digits bin_val 2 s' 0 = Some m" and d: "bin_val c = Some d" and n: "n = m * 2 + d"
    by (auto simp: parse_digits_append split: option.splits)
  from bin_val_Some [OF d] have d2: "d < 2" and c: "c = digit_char d" by simp_all
  show ?case
  proof (cases "s' = []")
    case True
    with m have "m = 0" by simp
    with n d2 c True have "s' @ [c] = replicate 0 CHR ''0'' @ bin_digits n"
      by (simp add: bin_digits_small)
    then show ?thesis by blast
  next
    case False
    from snoc.IH [OF False m] obtain k where k: "s' = replicate k CHR ''0'' @ bin_digits m"
      by blast
    show ?thesis
    proof (cases "m = 0")
      case True
      then have "bin_digits m = [CHR ''0'']" by (simp add: bin_digits_small digit_char_def)
      with k have "s' = replicate (Suc k) CHR ''0''"
        by (simp add: replicate_append_same)
      moreover have "bin_digits n = [c]" using n True d2 c by (simp add: bin_digits_small)
      ultimately have "s' @ [c] = replicate (Suc k) CHR ''0'' @ bin_digits n" by simp
      then show ?thesis by blast
    next
      case False
      then have "bin_digits n = bin_digits m @ [c]"
        using n d2 c by (simp add: bin_digits_step)
      with k have "s' @ [c] = replicate k CHR ''0'' @ bin_digits n" by simp
      then show ?thesis by blast
    qed
  qed
qed

lemma pad_loop_zeros:
  "pad_loop b (replicate k CHR ''0'' @ b) z = Some (replicate k CHR ''0'' @ b, z + k)"
proof (induction k arbitrary: b z)
  case 0
  show ?case by (subst pad_loop.simps) simp
next
  case (Suc k)
  have ne: "b \<noteq> replicate (Suc k) CHR ''0'' @ b"
  proof
    assume "b = replicate (Suc k) CHR ''0'' @ b"
    then have "length b = length (replicate (Suc k) CHR ''0'' @ b)" by (rule arg_cong)
    then show False by simp
  qed
  have shift: "replicate (Suc k) CHR ''0'' @ b = replicate k CHR ''0'' @ (CHR ''0'' # b)"
    by (simp add: replicate_app_Cons_same)
  have "pad_loop b (replicate (Suc k) CHR ''0'' @ b) z =
        pad_loop (CHR ''0'' # b) (replicate (Suc k) CHR ''0'' @ b) (z + 1)"
    using ne by (subst pad_loop.simps) simp
  also have "\<dots> = Some (replicate (Suc k) CHR ''0'' @ b, z + 1 + k)"
    unfolding shift by (rule Suc.IH)
  finally show ?case by simp
qed

lemma pack_unpack:
  assumes "py_int2 int_str = Inr n"
  shows "\<exists>k. pack int_str = Some (Inr (py_hex n, k)) \<and> unpack_bits (py_hex n) k = Inr int_str"
proof -
  from assms have ne: "int_str \<noteq> []" and p: "parse_digits bin_val 2 int_str 0 = Some n"
    by (auto simp: py_int2_def split: if_splits option.splits)
  from parse_bits_zeros [OF ne p] obtain k where
    k: "int_str = replicate k CHR ''0'' @ bin_digits n" by blast
  have "pad_loop (bin_digits n) int_str 0 = Some (int_str, k)"
    using pad_loop_zeros [of "bin_digits n" k 0] k by simp
  then have "pack int_str = Some (Inr (py_hex n, k))"
    using assms by (simp add: pack_def py_int16_py_hex py_bin_def)
  moreover have "unpack_bits (py_hex n) k = Inr int_str"
    using k by (simp add: unpack_bits_def py_int16_py_hex py_bin_def)
  ultimately show ?thesis by blast
qed


lemma py_int2_bits:
  "s \<noteq> [] \<Longrightarrow> set s \<subseteq> {CHR ''0'', CHR ''1''} \<Longrightarrow> \<exists>n. py_int2 s = Inr n"
proof -
  assume ne: "s \<noteq> []" and bits: "set s \<subseteq> {CHR ''0'', CHR ''1''}"
  have "\<exists>n. parse_digits bin_val 2 s acc = Some n" for acc
    using bits
  proof (induction s arbitrary: acc)
    case Nil
    then show ?case by simp
  next
    case (Cons c s)
    then have "c = CHR ''0'' \<or> c = CHR ''1''" by simp
    then have "\<exists>d. bin_val c = Some d" by (auto simp: bin_val_def)
    then show ?case using Cons by auto
  qed
  then obtain n where "parse_digits bin_val 2 s 0 = Some n" by blast
  then show ?thesis using ne by (simp add: py_int2_def)
qed



section \<open>The merge loop\<close>

text \<open>
  A round of the loop pops two nodes and, unless it stops, pushes their parent. A property
  of single nodes that holds of the queued nodes and of the parent of any two nodes
  having it holds of the root. When the queued frequencies are positive and add up to
  \<open>n\<close>, the parent's frequency is \<open>n\<close> exactly when the two pops have emptied the queue.
\<close>

lemma build_loop_unfold:
  "heappop h = Inr (a, h1) \<Longrightarrow> heappop h1 = Inr (b, h2) \<Longrightarrow>
   build_loop h n =
     (if freq (merge_nodes a b) = n then Inr (merge_nodes a b)
      else build_loop (heappush h2 (merge_nodes a b)) n)"
  by (subst build_loop.simps) simp

lemma build_loop_spec_unfold:
  "length h \<noteq> 1 \<Longrightarrow> heappop h = Inr (a, h1) \<Longrightarrow> heappop h1 = Inr (b, h2) \<Longrightarrow>
   build_loop_spec h = build_loop_spec (heappush h2 (merge_nodes a b))"
  by (subst build_loop_spec.simps) simp

lemma build_loop_spec_single: "build_loop_spec [x] = Inr x"
  by (subst build_loop_spec.simps) simp

lemma build_loop_Inr_pops:
  "build_loop h n = Inr t \<Longrightarrow>
   \<exists>a h1 b h2. heappop h = Inr (a, h1) \<and> heappop h1 = Inr (b, h2)"
  by (subst (asm) build_loop.simps) (auto split: sum.splits)

lemma set_heappop: "heappop h = Inr (x, h') \<Longrightarrow> set h = insert x (set h')"
  using arg_cong [OF mset_heappop, of h x h' set_mset] by simp

lemma set_heappush: "set (heappush h x) = insert x (set h)"
  using arg_cong [OF mset_heappush, of set_mset h x] by simp

lemma freq_merge_nodes: "freq (merge_nodes a b) = freq a + freq b"
  by (simp add: merge_nodes_def)

lemma build_loop_preserves:
  assumes "build_loop h n = Inr t"
    and "\<And>x. x \<in> set h \<Longrightarrow> P x"
    and "\<And>a b. P a \<Longrightarrow> P b \<Longrightarrow> P (merge_nodes a b)"
  shows "P t \<and> freq t = n"
  using assms(1,2)
proof (induction "length h" arbitrary: h rule: less_induct)
  case less
  from build_loop_Inr_pops [OF less.prems(1)] obtain a h1 b h2 where
    p1: "heappop h = Inr (a, h1)" and p2: "heappop h1 = Inr (b, h2)" by blast
  have sets: "set h = insert a (insert b (set h2))"
    using set_heappop [OF p1] set_heappop [OF p2] by simp
  have Pm: "P (merge_nodes a b)"
    using less.prems(2) sets by (intro assms(3)) simp_all
  show ?case
  proof (cases "freq (merge_nodes a b) = n")
    case True
    then have "t = merge_nodes a b"
      using less.prems(1) build_loop_unfold [OF p1 p2, of n] by simp
    with Pm True show ?thesis by simp
  next
    case False
    then have rec: "build_loop (heappush h2 (merge_nodes a b)) n = Inr t"
      using less.prems(1) build_loop_unfold [OF p1 p2, of n] by simp
    have len: "length (heappush h2 (merge_nodes a b)) < length h"
      using length_heappop [OF p1] length_heappop [OF p2] by simp
    show ?thesis
    proof (rule less.hyps [OF len rec])
      fix x assume "x \<in> set (heappush h2 (merge_nodes a b))"
      then show "P x" using Pm less.prems(2) sets by (auto simp: set_heappush)
    qed
  qed
qed

lemma sum_mset_pos_empty:
  fixes M :: "TreeNode multiset"
  assumes "\<And>x. x \<in># M \<Longrightarrow> 0 < freq x"
  shows "sum_mset (image_mset freq M) = 0 \<longleftrightarrow> M = {#}"
proof
  assume z: "sum_mset (image_mset freq M) = 0"
  show "M = {#}"
  proof (rule ccontr)
    assume "M \<noteq> {#}"
    then obtain x where x: "x \<in># M" by auto
    then obtain M' where "M = add_mset x M'" by (meson mset_add)
    with z have "freq x = 0" by simp
    with assms [OF x] show False by simp
  qed
qed simp

text \<open>The state of the merge loop after the two pops of a round.\<close>

lemma build_loop_round:
  assumes len: "2 \<le> length h"
    and pos: "\<And>x. x \<in> set h \<Longrightarrow> 0 < freq x"
    and total: "sum_mset (image_mset freq (mset h)) = n"
  obtains a h1 b h2 where
    "heappop h = Inr (a, h1)" "heappop h1 = Inr (b, h2)"
    "mset h = add_mset a (add_mset b (mset h2))"
    "Suc (Suc (length h2)) = length h"
    "freq (merge_nodes a b) = n \<longleftrightarrow> h2 = []"
proof -
  from len have "h \<noteq> []" by auto
  from heappop_nonempty [OF this] obtain a h1 where p1: "heappop h = Inr (a, h1)" by blast
  from length_heappop [OF p1] len have "h1 \<noteq> []" by auto
  from heappop_nonempty [OF this] obtain b h2 where p2: "heappop h1 = Inr (b, h2)" by blast
  have m: "mset h = add_mset a (add_mset b (mset h2))"
    using mset_heappop [OF p1] mset_heappop [OF p2] by simp
  have l: "Suc (Suc (length h2)) = length h"
    using length_heappop [OF p1] length_heappop [OF p2] by simp
  have "\<And>x. x \<in># mset h2 \<Longrightarrow> 0 < freq x"
  proof -
    fix x assume "x \<in># mset h2"
    then have "x \<in> set h" using arg_cong [OF m, of set_mset] by simp
    then show "0 < freq x" by (rule pos)
  qed
  from sum_mset_pos_empty [of "mset h2", OF this]
  have "sum_mset (image_mset freq (mset h2)) = 0 \<longleftrightarrow> h2 = []" by simp
  moreover have "n = freq a + freq b + sum_mset (image_mset freq (mset h2))"
    using total m by simp
  ultimately have "freq (merge_nodes a b) = n \<longleftrightarrow> h2 = []"
    by (auto simp: freq_merge_nodes)
  with p1 p2 m l show ?thesis by (rule that)
qed

lemma build_loop_refines:
  assumes "2 \<le> length h"
    and "\<And>x. x \<in> set h \<Longrightarrow> 0 < freq x"
    and "sum_mset (image_mset freq (mset h)) = n"
  shows "\<exists>t. build_loop h n = Inr t \<and> build_loop_spec h = Inr t"
  using assms
proof (induction "length h" arbitrary: h rule: less_induct)
  case less
  from build_loop_round [OF less.prems] obtain a h1 b h2 where
    p1: "heappop h = Inr (a, h1)" and p2: "heappop h1 = Inr (b, h2)" and
    m: "mset h = add_mset a (add_mset b (mset h2))" and
    l: "Suc (Suc (length h2)) = length h" and
    exit: "freq (merge_nodes a b) = n \<longleftrightarrow> h2 = []" by blast
  have ne1: "length h \<noteq> 1" using less.prems(1) by simp
  let ?m = "merge_nodes a b"
  show ?case
  proof (cases "h2 = []")
    case True
    then have "build_loop h n = Inr ?m"
      using exit build_loop_unfold [OF p1 p2, of n] by simp
    moreover have "build_loop_spec h = Inr ?m"
      using build_loop_spec_unfold [OF ne1 p1 p2] True
      by (simp add: heappush_Nil build_loop_spec_single)
    ultimately show ?thesis by simp
  next
    case False
    let ?h = "heappush h2 ?m"
    have r1: "build_loop h n = build_loop ?h n"
      using exit False build_loop_unfold [OF p1 p2, of n] by simp
    have r2: "build_loop_spec h = build_loop_spec ?h"
      by (rule build_loop_spec_unfold [OF ne1 p1 p2])
    have len: "length ?h < length h" using l by simp
    have len2: "2 \<le> length ?h" using False by (cases h2) simp_all
    have sets: "set h = insert a (insert b (set h2))"
      using arg_cong [OF m, of set_mset] by simp
    have pos: "0 < freq x" if "x \<in> set ?h" for x
    proof -
      from that have "x = ?m \<or> x \<in> set h2" by (simp add: set_heappush)
      then show ?thesis
      proof
        assume "x = ?m"
        moreover have "0 < freq a" by (rule less.prems(2)) (simp add: sets)
        ultimately show ?thesis by (simp add: freq_merge_nodes)
      next
        assume "x \<in> set h2"
        then have "x \<in> set h" by (simp add: sets)
        then show ?thesis by (rule less.prems(2))
      qed
    qed
    have tot: "sum_mset (image_mset freq (mset ?h)) = n"
      using less.prems(3) m by (simp add: mset_heappush freq_merge_nodes)
    from less.hyps [OF len len2 pos tot] r1 r2 show ?thesis by simp
  qed
qed

section \<open>The first queue of an input\<close>

text \<open>
  The queue that \<open>encode\<close> fills from the table of \<open>s\<close> holds one leaf per distinct
  character, with positive frequencies that add up to \<open>len(s)\<close>. Every queue at the head
  of the loop keeps these properties and holds at least two nodes.
\<close>

lemma init_heap_set:
  "x \<in> set (init_heap freqs) \<Longrightarrow> \<exists>k v. (k, v) \<in> set freqs \<and> x = new_node [k] v"
proof -
  assume "x \<in> set (init_heap freqs)"
  then have "x \<in># mset (init_heap freqs)" by simp
  then have "x \<in> set (map (\<lambda>(k, v). new_node [k] v) freqs)"
    unfolding mset_init_heap by simp
  then show ?thesis by auto
qed

lemma init_heap_total:
  "sum_mset (image_mset freq (mset (init_heap freqs))) = sum_list (map snd freqs)"
proof -
  have "sum_mset (image_mset freq (mset (map (\<lambda>(k, v). new_node [k] v) freqs))) =
        sum_list (map snd freqs)"
    by (induction freqs) (auto simp: new_node_def)
  then show ?thesis by (simp only: mset_init_heap)
qed

lemma first_queue:
  "length (init_heap (make_dict s)) = card (set s)"
  "x \<in> set (init_heap (make_dict s)) \<Longrightarrow> 0 < freq x"
  "sum_mset (image_mset freq (mset (init_heap (make_dict s)))) = length s"
proof -
  show "length (init_heap (make_dict s)) = card (set s)"
    by (simp add: length_init_heap length_make_dict)
  show "sum_mset (image_mset freq (mset (init_heap (make_dict s)))) = length s"
    by (simp add: init_heap_total make_dict_sum)
  assume "x \<in> set (init_heap (make_dict s))"
  from init_heap_set [OF this] obtain k v where
    "(k, v) \<in> set (make_dict s)" "x = new_node [k] v" by blast
  then show "0 < freq x" using make_dict_positive [of k v s] by (simp add: new_node_def)
qed

lemma loop_state_invariant:
  assumes "loop_state h0 n h"
    and "2 \<le> length h0"
    and "\<And>x. x \<in> set h0 \<Longrightarrow> 0 < freq x"
    and "sum_mset (image_mset freq (mset h0)) = n"
  shows "2 \<le> length h \<and> (\<forall>x \<in> set h. 0 < freq x) \<and>
         sum_mset (image_mset freq (mset h)) = n"
  using assms
proof (induction rule: loop_state.induct)
  case start
  then show ?case by simp
next
  case (round h a h1 b h2)
  have inv: "2 \<le> length h \<and> (\<forall>x \<in> set h. 0 < freq x) \<and>
      sum_mset (image_mset freq (mset h)) = n"
    by (rule round.IH [OF round.prems])
  from inv have len: "2 \<le> length h" by (rule conjunct1)
  from inv have pos: "\<And>x. x \<in> set h \<Longrightarrow> 0 < freq x" by blast
  from inv have tot: "sum_mset (image_mset freq (mset h)) = n" by blast
  from build_loop_round [OF len pos tot] obtain a' h1' b' h2' where
    p1: "heappop h = Inr (a', h1')" and p2: "heappop h1' = Inr (b', h2')" and
    m: "mset h = add_mset a' (add_mset b' (mset h2'))" and
    l: "Suc (Suc (length h2')) = length h" and
    exit: "freq (merge_nodes a' b') = n \<longleftrightarrow> h2' = []" by blast
  from p1 round.hyps(2) have e1: "a' = a" "h1' = h1" by simp_all
  from p2 round.hyps(3) e1 have e2: "b' = b" "h2' = h2" by simp_all
  have ne: "h2 \<noteq> []" using exit round.hyps(4) e1 e2 by simp
  have sets: "set h = insert a (insert b (set h2))"
    using arg_cong [OF m, of set_mset] e1 e2 by simp
  have "2 \<le> length (heappush h2 (merge_nodes a b))" using ne by (cases h2) simp_all
  moreover have "\<forall>x \<in> set (heappush h2 (merge_nodes a b)). 0 < freq x"
  proof
    fix x assume "x \<in> set (heappush h2 (merge_nodes a b))"
    then have "x = merge_nodes a b \<or> x \<in> set h2" by (simp add: set_heappush)
    then show "0 < freq x"
    proof
      assume "x = merge_nodes a b"
      moreover have "0 < freq a" by (rule pos) (simp add: sets)
      ultimately show ?thesis by (simp add: freq_merge_nodes)
    next
      assume "x \<in> set h2"
      then have "x \<in> set h" by (simp add: sets)
      then show ?thesis by (rule pos)
    qed
  qed
  moreover have "sum_mset (image_mset freq (mset (heappush h2 (merge_nodes a b)))) = n"
    using tot m e1 e2 by (simp add: mset_heappush freq_merge_nodes)
  ultimately show ?case by simp
qed

lemma sums_ok_new_node: "sums_ok (Some (new_node l v))"
  by (simp add: new_node_def)

lemma sums_ok_merge_nodes:
  "sums_ok (Some a) \<Longrightarrow> sums_ok (Some b) \<Longrightarrow> sums_ok (Some (merge_nodes a b))"
  by (simp add: merge_nodes_def)

lemma ab_tree:
  "build_tree ''ab'' =
     Inr (TreeNode ''ab'' 2 (Some (TreeNode ''a'' 1 None None []))
            (Some (TreeNode ''b'' 1 None None [])) [])"
  by code_simp

lemma ab_heap:
  "init_heap (make_dict ''ab'') = [TreeNode ''a'' 1 None None [], TreeNode ''b'' 1 None None []]"
  by code_simp

text \<open>
  Claim C6: for an input with at least two distinct symbols, the exit condition
  \<open>parent_node.freq == len(s)\<close> of the merge loop holds in exactly the round whose two pops
  have emptied the queue (the parent is the one node left), and the loop returns the same
  tree as the loop of the specification, which pushes the parent and stops when the queue
  has exactly one element.
\<close>

theorem exit_condition_refines:
  assumes "2 \<le> card (set s)"
  shows "(\<exists>t. build_loop (init_heap (make_dict s)) (length s) = Inr t \<and>
              build_loop_spec (init_heap (make_dict s)) = Inr t) \<and>
         (\<forall>h. loop_state (init_heap (make_dict s)) (length s) h \<longrightarrow>
            (\<exists>node1 heap1 node2 heap2.
               heappop h = Inr (node1, heap1) \<and> heappop heap1 = Inr (node2, heap2) \<and>
               (freq (merge_nodes node1 node2) = length s \<longleftrightarrow> heap2 = [])))"
proof (intro conjI allI impI)
  have len: "2 \<le> length (init_heap (make_dict s))"
    using assms by (simp add: first_queue(1))
  show "\<exists>t. build_loop (init_heap (make_dict s)) (length s) = Inr t \<and>
            build_loop_spec (init_heap (make_dict s)) = Inr t"
    using len first_queue(2) first_queue(3) by (rule build_loop_refines)
  fix h
  assume "loop_state (init_heap (make_dict s)) (length s) h"
  from loop_state_invariant [OF this len first_queue(2) first_queue(3)]
  have l: "2 \<le> length h" and p: "\<And>x. x \<in> set h \<Longrightarrow> 0 < freq x" and
    t: "sum_mset (image_mset freq (mset h)) = length s" by simp_all
  from build_loop_round [OF l p t]
  show "\<exists>node1 heap1 node2 heap2.
          heappop h = Inr (node1, heap1) \<and> heappop heap1 = Inr (node2, heap2) \<and>
          (freq (merge_nodes node1 node2) = length s \<longleftrightarrow> heap2 = [])"
    by metis
qed

theorem exit_condition_refines_witness:
  "2 \<le> card (set ''ab'') \<and>
   (\<exists>t. build_loop (init_heap (make_dict ''ab'')) (length ''ab'') = Inr t \<and>
        build_loop_spec (init_heap (make_dict ''ab'')) = Inr t) \<and>
   loop_state (init_heap (make_dict ''ab'')) (length ''ab'') (init_heap (make_dict ''ab'')) \<and>
   (\<exists>node1 heap1 node2 heap2.
      heappop (init_heap (make_dict ''ab'')) = Inr (node1, heap1) \<and>
      heappop heap1 = Inr (node2, heap2) \<and>
      (freq (merge_nodes node1 node2) = length ''ab'' \<longleftrightarrow> heap2 = []))"
proof -
  have c: "2 \<le> card (set ''ab'')" by simp
  have st: "loop_state (init_heap (make_dict ''ab'')) (length ''ab'') (init_heap (make_dict ''ab''))"
    by (rule loop_state.start)
  from exit_condition_refines [OF c] c st show ?thesis by blast
qed

text \<open>
  Claim C8: for every input string the counts of the frequency table add up to the length
  of the input; the root that the merge loop returns has that sum as its frequency, and
  every node of it that has children has two, its frequency being the sum of theirs. The
  loop returns a root for every input with at least two distinct characters.
\<close>

theorem frequency_invariant:
  "sum_list (map snd (make_dict s)) = length s \<and>
   (\<forall>root. build_tree s = Inr root \<longrightarrow> freq root = length s \<and> sums_ok (Some root)) \<and>
   (2 \<le> card (set s) \<longrightarrow> (\<exists>root. build_tree s = Inr root))"
proof (intro conjI allI impI)
  show "sum_list (map snd (make_dict s)) = length s" by (rule make_dict_sum)
next
  fix root assume r: "build_tree s = Inr root"
  have "sums_ok (Some root) \<and> freq root = length s"
  proof (rule build_loop_preserves [where P = "\<lambda>x. sums_ok (Some x)"])
    show "build_loop (init_heap (make_dict s)) (length s) = Inr root"
      using r by (simp add: build_tree_def)
    show "\<And>x. x \<in> set (init_heap (make_dict s)) \<Longrightarrow> sums_ok (Some x)"
      using init_heap_set sums_ok_new_node by blast
    show "\<And>a b. sums_ok (Some a) \<Longrightarrow> sums_ok (Some b) \<Longrightarrow> sums_ok (Some (merge_nodes a b))"
      by (rule sums_ok_merge_nodes)
  qed
  then show "freq root = length s" "sums_ok (Some root)" by simp_all
next
  assume "2 \<le> card (set s)"
  then have "2 \<le> length (init_heap (make_dict s))" by (simp add: first_queue(1))
  then have "\<exists>t. build_loop (init_heap (make_dict s)) (length s) = Inr t \<and>
              build_loop_spec (init_heap (make_dict s)) = Inr t"
    using first_queue(2) first_queue(3) by (rule build_loop_refines)
  then show "\<exists>root. build_tree s = Inr root" by (auto simp: build_tree_def)
qed

theorem frequency_invariant_witness:
  "2 \<le> card (set ''ab'') \<and>
   build_tree ''ab'' =
     Inr (TreeNode ''ab'' 2 (Some (TreeNode ''a'' 1 None None []))
            (Some (TreeNode ''b'' 1 None None [])) []) \<and>
   sum_list (map snd (make_dict ''ab'')) = length ''ab'' \<and>
   freq (TreeNode ''ab'' 2 (Some (TreeNode ''a'' 1 None None []))
            (Some (TreeNode ''b'' 1 None None [])) []) = length ''ab'' \<and>
   sums_ok (Some (TreeNode ''ab'' 2 (Some (TreeNode ''a'' 1 None None []))
            (Some (TreeNode ''b'' 1 None None [])) []))"
proof -
  have c: "2 \<le> card (set ''ab'')" by simp
  from frequency_invariant [of "''ab''"] ab_tree c show ?thesis by blast
qed

section \<open>The leaves that \<open>tree_dfs\<close> collects\<close>

text \<open>
  \<open>leaf_pairs t cur\<close> lists, in the order of the traversal, the leaves below \<open>t\<close> as pairs
  of the path from the root (starting with \<open>cur\<close>) and the letter. These are the encodings
  and letters of the nodes that \<open>tree_dfs\<close> appends. The paths below the right child start
  with \<open>cur1\<close> and those below the left child with \<open>cur0\<close>, so no path is a prefix of
  another one, whatever the shape of the tree.
\<close>

fun leaf_pairs :: "TreeNode option \<Rightarrow> string \<Rightarrow> (string \<times> string) list" where
  "leaf_pairs None cur = []"
| "leaf_pairs (Some (TreeNode l f lt rt e)) cur =
     (if rt = None \<and> lt = None then [(cur, l)]
      else leaf_pairs rt (cur @ ''1'') @ leaf_pairs lt (cur @ ''0''))"

definition pair_of :: "TreeNode \<Rightarrow> string \<times> string" where
  "pair_of leaf = (encoding leaf, letter leaf)"

definition prefix_free :: "string list \<Rightarrow> bool" where
  "prefix_free cs = (distinct cs \<and> (\<forall>x \<in> set cs. \<forall>y \<in> set cs. prefix x y \<longrightarrow> x = y))"

lemma tree_dfs_Some:
  "tree_dfs (Some (TreeNode l f lt rt e)) cur acc =
     (if rt = None \<and> lt = None then acc @ [TreeNode l f lt rt cur]
      else tree_dfs lt (cur @ ''0'') (tree_dfs rt (cur @ ''1'') acc))"
  by (cases rt; cases lt) simp_all

lemma tree_dfs_pairs:
  "map pair_of (tree_dfs t cur acc) = map pair_of acc @ leaf_pairs t cur"
proof (induction t cur arbitrary: acc rule: leaf_pairs.induct)
  case (1 cur)
  show ?case by simp
next
  case (2 l f lt rt e cur)
  show ?case
  proof (cases "rt = None \<and> lt = None")
    case True
    then show ?thesis by (simp add: pair_of_def)
  next
    case False
    have "map pair_of (tree_dfs (Some (TreeNode l f lt rt e)) cur acc) =
          map pair_of (tree_dfs lt (cur @ ''0'') (tree_dfs rt (cur @ ''1'') acc))"
      using False by (simp only: tree_dfs_Some if_False)
    also have "\<dots> = map pair_of (tree_dfs rt (cur @ ''1'') acc) @ leaf_pairs lt (cur @ ''0'')"
      by (rule "2.IH"(2) [OF False])
    also have "map pair_of (tree_dfs rt (cur @ ''1'') acc) =
               map pair_of acc @ leaf_pairs rt (cur @ ''1'')"
      by (rule "2.IH"(1) [OF False])
    finally have "map pair_of (tree_dfs (Some (TreeNode l f lt rt e)) cur acc) =
        (map pair_of acc @ leaf_pairs rt (cur @ ''1'')) @ leaf_pairs lt (cur @ ''0'')" .
    moreover have "leaf_pairs (Some (TreeNode l f lt rt e)) cur =
        leaf_pairs rt (cur @ ''1'') @ leaf_pairs lt (cur @ ''0'')"
      using False by simp
    ultimately show ?thesis by (simp only: append_assoc)
  qed
qed

lemma leaf_pairs_prefix: "(c, l) \<in> set (leaf_pairs t cur) \<Longrightarrow> prefix cur c"
proof (induction t cur rule: leaf_pairs.induct)
  case (1 cur)
  then show ?case by simp
next
  case (2 l' f lt rt e cur)
  show ?case
  proof (cases "rt = None \<and> lt = None")
    case True
    with "2.prems" show ?thesis by simp
  next
    case False
    with "2.prems" have "(c, l) \<in> set (leaf_pairs rt (cur @ ''1'')) \<or>
        (c, l) \<in> set (leaf_pairs lt (cur @ ''0''))" by auto
    then show ?thesis
    proof
      assume "(c, l) \<in> set (leaf_pairs rt (cur @ ''1''))"
      from "2.IH"(1) [OF False this] show ?thesis by (rule append_prefixD)
    next
      assume "(c, l) \<in> set (leaf_pairs lt (cur @ ''0''))"
      from "2.IH"(2) [OF False this] show ?thesis by (rule append_prefixD)
    qed
  qed
qed

lemma prefix_same_length: "prefix a y \<Longrightarrow> prefix b y \<Longrightarrow> length a = length b \<Longrightarrow> a = b"
  by (auto simp: prefix_def)

lemma branches_apart:
  assumes "prefix (cur @ ''1'') x" and "prefix (cur @ ''0'') y"
  shows "\<not> prefix x y" and "\<not> prefix y x"
proof -
  show "\<not> prefix x y"
  proof
    assume "prefix x y"
    with assms(1) have "prefix (cur @ ''1'') y" by (rule prefix_order.trans)
    from prefix_same_length [OF this assms(2)] show False by simp
  qed
  show "\<not> prefix y x"
  proof
    assume "prefix y x"
    with assms(2) have "prefix (cur @ ''0'') x" by (rule prefix_order.trans)
    from prefix_same_length [OF this assms(1)] show False by simp
  qed
qed

lemma prefix_free_append:
  assumes "prefix_free xs" and "prefix_free ys"
    and "\<And>x. x \<in> set xs \<Longrightarrow> prefix (cur @ ''1'') x"
    and "\<And>y. y \<in> set ys \<Longrightarrow> prefix (cur @ ''0'') y"
  shows "prefix_free (xs @ ys)"
proof -
  have apart: "\<not> prefix x y \<and> \<not> prefix y x" if "x \<in> set xs" "y \<in> set ys" for x y
    using branches_apart [OF assms(3) [OF that(1)] assms(4) [OF that(2)]] by simp
  have disj: "set xs \<inter> set ys = {}"
  proof (rule ccontr)
    assume "set xs \<inter> set ys \<noteq> {}"
    then obtain z where "z \<in> set xs" "z \<in> set ys" by auto
    from apart [OF this] show False by simp
  qed
  have "distinct (xs @ ys)" using assms(1,2) disj by (simp add: prefix_free_def)
  moreover have "x = y"
    if mx: "x \<in> set (xs @ ys)" and my: "y \<in> set (xs @ ys)" and pre: "prefix x y" for x y
  proof -
    from mx have cx: "x \<in> set xs \<or> x \<in> set ys" by simp
    from my have cy: "y \<in> set xs \<or> y \<in> set ys" by simp
    show ?thesis
    proof (cases "x \<in> set xs")
      case True
      note x = True
      show ?thesis
      proof (cases "y \<in> set xs")
        case True
        with assms(1) x pre show ?thesis unfolding prefix_free_def by blast
      next
        case False
        with cy have "y \<in> set ys" by simp
        from apart [OF x this] pre show ?thesis by simp
      qed
    next
      case False
      with cx have x: "x \<in> set ys" by simp
      show ?thesis
      proof (cases "y \<in> set ys")
        case True
        with assms(2) x pre show ?thesis unfolding prefix_free_def by blast
      next
        case False
        with cy have "y \<in> set xs" by simp
        from apart [OF this x] pre show ?thesis by simp
      qed
    qed
  qed
  ultimately show ?thesis unfolding prefix_free_def by blast
qed

lemma leaf_pairs_prefix_free: "prefix_free (map fst (leaf_pairs t cur))"
proof (induction t cur rule: leaf_pairs.induct)
  case (1 cur)
  show ?case by (simp add: prefix_free_def)
next
  case (2 l f lt rt e cur)
  show ?case
  proof (cases "rt = None \<and> lt = None")
    case True
    then show ?thesis by (simp add: prefix_free_def)
  next
    case False
    have "prefix_free (map fst (leaf_pairs rt (cur @ ''1'')) @ map fst (leaf_pairs lt (cur @ ''0'')))"
    proof (rule prefix_free_append)
      show "prefix_free (map fst (leaf_pairs rt (cur @ ''1'')))" by (rule "2.IH"(1) [OF False])
      show "prefix_free (map fst (leaf_pairs lt (cur @ ''0'')))" by (rule "2.IH"(2) [OF False])
      show "\<And>x. x \<in> set (map fst (leaf_pairs rt (cur @ ''1''))) \<Longrightarrow> prefix (cur @ ''1'') x"
        using leaf_pairs_prefix by fastforce
      show "\<And>y. y \<in> set (map fst (leaf_pairs lt (cur @ ''0''))) \<Longrightarrow> prefix (cur @ ''0'') y"
        using leaf_pairs_prefix by fastforce
    qed
    moreover have "leaf_pairs (Some (TreeNode l f lt rt e)) cur =
        leaf_pairs rt (cur @ ''1'') @ leaf_pairs lt (cur @ ''0'')"
      using False by simp
    ultimately show ?thesis by (simp only: map_append)
  qed
qed

section \<open>The code book\<close>

text \<open>
  When the loop that fills \<open>encoding_to_char\<close> passes its assertions, every key was fresh,
  so the dictionary lists the leaves in the order of the traversal. Inverting a dictionary
  yields pairs of the dictionary turned round, all of them when its values are distinct.
\<close>

lemma fill_encoding_to_char_Inr:
  "fill_encoding_to_char leaves d = Inr e2c \<Longrightarrow> e2c = d @ map pair_of leaves"
proof (induction leaves arbitrary: d)
  case Nil
  then show ?case by simp
next
  case (Cons leaf leaves)
  from Cons.prems have fresh: "map_of d (encoding leaf) = None"
    and rec: "fill_encoding_to_char leaves (dict_set d (encoding leaf) (letter leaf)) = Inr e2c"
    by (auto split: if_splits)
  from fresh have "encoding leaf \<notin> fst ` set d" by (simp add: map_of_eq_None_iff)
  then have "dict_set d (encoding leaf) (letter leaf) = d @ [pair_of leaf]"
    by (simp add: dict_set_fresh pair_of_def)
  with Cons.IH [OF rec] show ?case by simp
qed

lemma fill_encoding_to_char_ok:
  "(\<And>x. x \<in> set leaves \<Longrightarrow> length (letter x) = 1) \<Longrightarrow>
   distinct (map fst (d @ map pair_of leaves)) \<Longrightarrow>
   fill_encoding_to_char leaves d = Inr (d @ map pair_of leaves)"
proof (induction leaves arbitrary: d)
  case Nil
  then show ?case by simp
next
  case (Cons leaf leaves)
  have len: "length (letter leaf) = 1" by (rule Cons.prems(1)) simp
  have "encoding leaf \<notin> fst ` set d"
    using Cons.prems(2) by (auto simp: pair_of_def)
  then have fresh: "map_of d (encoding leaf) = None"
    and ds: "dict_set d (encoding leaf) (letter leaf) = d @ [pair_of leaf]"
    by (simp_all add: map_of_eq_None_iff dict_set_fresh pair_of_def)
  have "fill_encoding_to_char leaves (d @ [pair_of leaf]) =
        Inr ((d @ [pair_of leaf]) @ map pair_of leaves)"
  proof (rule Cons.IH)
    show "\<And>x. x \<in> set leaves \<Longrightarrow> length (letter x) = 1" using Cons.prems(1) by simp
    show "distinct (map fst ((d @ [pair_of leaf]) @ map pair_of leaves))"
      using Cons.prems(2) by simp
  qed
  then show ?case using len fresh ds by simp
qed

lemma invert_dict_acc_set:
  "set (foldl (\<lambda>acc (k, v). dict_set acc v k) acc d) \<subseteq> set acc \<union> {(v, k). (k, v) \<in> set d}"
proof (induction d arbitrary: acc)
  case Nil
  show ?case by simp
next
  case (Cons p d)
  obtain k v where p: "p = (k, v)" by (cases p)
  have "set (foldl (\<lambda>acc (k, v). dict_set acc v k) (dict_set acc v k) d) \<subseteq>
        set (dict_set acc v k) \<union> {(v, k). (k, v) \<in> set d}"
    by (rule Cons.IH)
  moreover have "set (dict_set acc v k) \<subseteq> insert (v, k) (set acc)" by (rule set_dict_set)
  ultimately show ?case unfolding p by auto
qed

lemma invert_dict_set: "(v, k) \<in> set (invert_dict d) \<Longrightarrow> (k, v) \<in> set d"
  using invert_dict_acc_set [of "[]" d] by (auto simp: invert_dict_def)

lemma invert_dict_acc_distinct:
  "distinct (map fst acc @ map snd d) \<Longrightarrow>
   foldl (\<lambda>acc (k, v). dict_set acc v k) acc d = acc @ map (\<lambda>(k, v). (v, k)) d"
proof (induction d arbitrary: acc)
  case Nil
  show ?case by simp
next
  case (Cons p d)
  obtain k v where p: "p = (k, v)" by (cases p)
  from Cons.prems have "v \<notin> fst ` set acc" unfolding p by auto
  then have ds: "dict_set acc v k = acc @ [(v, k)]" by (rule dict_set_fresh)
  have "foldl (\<lambda>acc (k, v). dict_set acc v k) (acc @ [(v, k)]) d =
        (acc @ [(v, k)]) @ map (\<lambda>(k, v). (v, k)) d"
  proof (rule Cons.IH)
    show "distinct (map fst (acc @ [(v, k)]) @ map snd d)" using Cons.prems unfolding p by simp
  qed
  then show ?case unfolding p by (simp add: ds)
qed

lemma invert_dict_distinct:
  "distinct (map snd d) \<Longrightarrow> invert_dict d = map (\<lambda>(k, v). (v, k)) d"
  using invert_dict_acc_distinct [of "[]" d] by (simp add: invert_dict_def)

lemma code_book_pairs:
  assumes "code_book root = Inr book" and "(a, ca) \<in> set book"
  shows "(ca, a) \<in> set (leaf_pairs (Some root) [])"
proof -
  from assms(1) obtain e2c where
    f: "fill_encoding_to_char (tree_dfs (Some root) [] []) [] = Inr e2c" and
    b: "book = invert_dict e2c"
    by (auto simp: code_book_def split: sum.splits)
  from fill_encoding_to_char_Inr [OF f] have "e2c = leaf_pairs (Some root) []"
    by (simp add: tree_dfs_pairs)
  with assms(2) b show ?thesis by (simp add: invert_dict_set)
qed

lemma distinct_fst_unique:
  "distinct (map fst xs) \<Longrightarrow> (k, v) \<in> set xs \<Longrightarrow> (k, v') \<in> set xs \<Longrightarrow> v = v'"
  by (meson eq_key_imp_eq_value)

lemma ab_book:
  "code_book (TreeNode ''ab'' 2 (Some (TreeNode ''a'' 1 None None []))
            (Some (TreeNode ''b'' 1 None None [])) []) = Inr [(''b'', ''1''), (''a'', ''0'')]"
  by code_simp

text \<open>
  Claim C7: in the code book derived from a tree, the codes of two distinct symbols are
  different and neither is a prefix of the other. This holds for the book of every tree,
  so for every tree that the merge loop builds.
\<close>

theorem code_book_prefix_free:
  assumes "code_book root = Inr book"
    and "(a, ca) \<in> set book" and "(b, cb) \<in> set book" and "a \<noteq> b"
  shows "\<not> prefix ca cb \<and> \<not> prefix cb ca \<and> ca \<noteq> cb"
proof -
  let ?ps = "leaf_pairs (Some root) []"
  have pa: "(ca, a) \<in> set ?ps" and pb: "(cb, b) \<in> set ?ps"
    using assms(1-3) by (simp_all add: code_book_pairs)
  have pf: "prefix_free (map fst ?ps)" by (rule leaf_pairs_prefix_free)
  then have d: "distinct (map fst ?ps)" by (simp add: prefix_free_def)
  have ne: "ca \<noteq> cb"
  proof
    assume "ca = cb"
    with pa pb have "a = b" using distinct_fst_unique [OF d] by blast
    with assms(4) show False by simp
  qed
  have ma: "ca \<in> set (map fst ?ps)" and mb: "cb \<in> set (map fst ?ps)"
    using pa pb by (force)+
  have "\<not> prefix ca cb" using pf ma mb ne unfolding prefix_free_def by blast
  moreover have "\<not> prefix cb ca" using pf ma mb ne unfolding prefix_free_def by blast
  ultimately show ?thesis using ne by simp
qed

theorem code_book_prefix_free_witness:
  "code_book (TreeNode ''ab'' 2 (Some (TreeNode ''a'' 1 None None []))
            (Some (TreeNode ''b'' 1 None None [])) []) = Inr [(''b'', ''1''), (''a'', ''0'')] \<and>
   \<not> prefix ''0'' ''1'' \<and> \<not> prefix ''1'' ''0'' \<and> ''0'' \<noteq> ''1''"
  using code_book_prefix_free [OF ab_book, of "''a''" "''0''" "''b''" "''1''"] ab_book
  by simp

section \<open>The leaves of the tree of an input\<close>

text \<open>
  The letters of the leaves do not depend on the path, and the paths consist of the digits
  0 and 1. The merge loop keeps the letters of the queued trees: the leaves of the root are
  the leaves that were pushed, one for each distinct character of the input.
\<close>

lemma leaf_pairs_letters: "map snd (leaf_pairs t cur) = map snd (leaf_pairs t cur')"
proof (induction t cur arbitrary: cur' rule: leaf_pairs.induct)
  case (1 cur)
  show ?case by simp
next
  case (2 l f lt rt e cur)
  show ?case
  proof (cases "rt = None \<and> lt = None")
    case True
    then show ?thesis by simp
  next
    case False
    have "map snd (leaf_pairs rt (cur @ ''1'')) = map snd (leaf_pairs rt (cur' @ ''1''))"
      by (rule "2.IH"(1) [OF False])
    moreover have "map snd (leaf_pairs lt (cur @ ''0'')) = map snd (leaf_pairs lt (cur' @ ''0''))"
      by (rule "2.IH"(2) [OF False])
    moreover have "leaf_pairs (Some (TreeNode l f lt rt e)) cur =
        leaf_pairs rt (cur @ ''1'') @ leaf_pairs lt (cur @ ''0'')"
      using False by simp
    moreover have "leaf_pairs (Some (TreeNode l f lt rt e)) cur' =
        leaf_pairs rt (cur' @ ''1'') @ leaf_pairs lt (cur' @ ''0'')"
      using False by simp
    ultimately show ?thesis by (simp only: map_append)
  qed
qed

lemma leaf_pairs_bits:
  "(c, l) \<in> set (leaf_pairs t cur) \<Longrightarrow> set c \<subseteq> set cur \<union> {CHR ''0'', CHR ''1''}"
proof (induction t cur rule: leaf_pairs.induct)
  case (1 cur)
  then show ?case by simp
next
  case (2 l' f lt rt e cur)
  show ?case
  proof (cases "rt = None \<and> lt = None")
    case True
    with "2.prems" show ?thesis by auto
  next
    case False
    with "2.prems" have "(c, l) \<in> set (leaf_pairs rt (cur @ ''1'')) \<or>
        (c, l) \<in> set (leaf_pairs lt (cur @ ''0''))" by auto
    then show ?thesis
    proof
      assume "(c, l) \<in> set (leaf_pairs rt (cur @ ''1''))"
      from "2.IH"(1) [OF False this] show ?thesis by auto
    next
      assume "(c, l) \<in> set (leaf_pairs lt (cur @ ''0''))"
      from "2.IH"(2) [OF False this] show ?thesis by auto
    qed
  qed
qed

definition letters_of :: "TreeNode \<Rightarrow> string multiset" where
  "letters_of x = mset (map snd (leaf_pairs (Some x) []))"

lemma letters_of_new_node: "letters_of (new_node l v) = {#l#}"
  by (simp add: letters_of_def new_node_def)

lemma letters_of_merge_nodes: "letters_of (merge_nodes a b) = letters_of a + letters_of b"
proof -
  have "map snd (leaf_pairs (Some (merge_nodes a b)) []) =
        map snd (leaf_pairs (Some b) ''1'') @ map snd (leaf_pairs (Some a) ''0'')"
    by (simp add: merge_nodes_def)
  also have "map snd (leaf_pairs (Some b) ''1'') = map snd (leaf_pairs (Some b) [])"
    by (rule leaf_pairs_letters)
  also have "map snd (leaf_pairs (Some a) ''0'') = map snd (leaf_pairs (Some a) [])"
    by (rule leaf_pairs_letters)
  finally show ?thesis by (simp add: letters_of_def)
qed

lemma build_loop_additive:
  fixes g :: "TreeNode \<Rightarrow> 'a::comm_monoid_add"
  assumes add: "\<And>a b. g (merge_nodes a b) = g a + g b"
    and "2 \<le> length h"
    and "\<And>x. x \<in> set h \<Longrightarrow> 0 < freq x"
    and "sum_mset (image_mset freq (mset h)) = n"
    and "build_loop h n = Inr t"
  shows "g t = sum_mset (image_mset g (mset h))"
  using assms(2-5)
proof (induction "length h" arbitrary: h rule: less_induct)
  case less
  from build_loop_round [OF less.prems(1,2,3)] obtain a h1 b h2 where
    p1: "heappop h = Inr (a, h1)" and p2: "heappop h1 = Inr (b, h2)" and
    m: "mset h = add_mset a (add_mset b (mset h2))" and
    l: "Suc (Suc (length h2)) = length h" and
    exit: "freq (merge_nodes a b) = n \<longleftrightarrow> h2 = []" by blast
  let ?m = "merge_nodes a b"
  show ?case
  proof (cases "h2 = []")
    case True
    then have "t = ?m"
      using exit less.prems(4) build_loop_unfold [OF p1 p2, of n] by simp
    then show ?thesis using m True by (simp add: add)
  next
    case False
    let ?h = "heappush h2 ?m"
    have r1: "build_loop ?h n = Inr t"
      using exit False less.prems(4) build_loop_unfold [OF p1 p2, of n] by simp
    have len: "length ?h < length h" using l by simp
    have len2: "2 \<le> length ?h" using False by (cases h2) simp_all
    have sets: "set h = insert a (insert b (set h2))"
      using arg_cong [OF m, of set_mset] by simp
    have pos: "0 < freq x" if "x \<in> set ?h" for x
    proof -
      from that have "x = ?m \<or> x \<in> set h2" by (simp add: set_heappush)
      then show ?thesis
      proof
        assume "x = ?m"
        moreover have "0 < freq a" by (rule less.prems(2)) (simp add: sets)
        ultimately show ?thesis by (simp add: freq_merge_nodes)
      next
        assume "x \<in> set h2"
        then have "x \<in> set h" by (simp add: sets)
        then show ?thesis by (rule less.prems(2))
      qed
    qed
    have tot: "sum_mset (image_mset freq (mset ?h)) = n"
      using less.prems(3) m by (simp add: mset_heappush freq_merge_nodes)
    have "g t = sum_mset (image_mset g (mset ?h))"
      by (rule less.hyps [OF len len2 pos tot r1])
    then show ?thesis using m by (simp add: mset_heappush add ac_simps)
  qed
qed

lemma init_heap_letters:
  "sum_mset (image_mset letters_of (mset (init_heap freqs))) =
   mset (map (\<lambda>p. [fst p]) freqs)"
proof -
  have "sum_mset (image_mset letters_of (mset (map (\<lambda>(k, v). new_node [k] v) freqs))) =
        mset (map (\<lambda>p. [fst p]) freqs)"
    by (induction freqs) (auto simp: letters_of_new_node)
  then show ?thesis by (simp only: mset_init_heap)
qed

lemma root_letters:
  assumes "2 \<le> card (set s)" and "build_tree s = Inr root"
  shows "mset (map snd (leaf_pairs (Some root) [])) = mset (map (\<lambda>p. [fst p]) (make_dict s))"
proof -
  have len: "2 \<le> length (init_heap (make_dict s))" using assms(1) by (simp add: first_queue(1))
  have b: "build_loop (init_heap (make_dict s)) (length s) = Inr root"
    using assms(2) by (simp add: build_tree_def)
  have "letters_of root = sum_mset (image_mset letters_of (mset (init_heap (make_dict s))))"
    using letters_of_merge_nodes len first_queue(2) first_queue(3) b
    by (rule build_loop_additive)
  then show ?thesis by (simp add: init_heap_letters letters_of_def)
qed

lemma root_letters_distinct:
  assumes "2 \<le> card (set s)" and "build_tree s = Inr root"
  shows "distinct (map snd (leaf_pairs (Some root) []))"
    and "set (map snd (leaf_pairs (Some root) [])) = (\<lambda>c. [c]) ` set s"
proof -
  note m = root_letters [OF assms]
  have d: "distinct (map (\<lambda>p. [fst p]) (make_dict s))"
    using make_dict_distinct [of s] by (simp add: distinct_map inj_on_def)
  show "distinct (map snd (leaf_pairs (Some root) []))"
    using d mset_eq_imp_distinct_iff [OF m] by simp
  have "set (map snd (leaf_pairs (Some root) [])) = set (map (\<lambda>p. [fst p]) (make_dict s))"
    by (rule mset_eq_setD [OF m])
  also have "\<dots> = (\<lambda>c. [c]) ` set (map fst (make_dict s))" by (simp add: image_image)
  finally show "set (map snd (leaf_pairs (Some root) [])) = (\<lambda>c. [c]) ` set s"
    by (simp only: make_dict_keys)
qed

section \<open>Decoding a concatenation of codes\<close>

text \<open>
  With a book whose codes are non-empty and prefix-free, the inner loop started at the
  beginning of a code stops at its end, unless that is the end of the bit string: the
  outer loop emits the letter of every code but the last one, where it leaves by the
  \<open>break\<close>.
\<close>

lemma slice_code:
  "j \<le> length pre + length w \<Longrightarrow>
   slice (pre @ w @ rest) (length pre) j = take (j - length pre) w"
  by (simp add: slice_def)

lemma proper_prefix_no_code:
  assumes pf: "\<And>x y. map_of e x \<noteq> None \<Longrightarrow> map_of e y \<noteq> None \<Longrightarrow> prefix x y \<Longrightarrow> x = y"
    and w: "map_of e w \<noteq> None"
    and j: "length pre < j" "j < length pre + length w"
  shows "map_of e (slice (pre @ w @ rest) (length pre) j) = None"
proof (rule ccontr)
  assume a: "map_of e (slice (pre @ w @ rest) (length pre) j) \<noteq> None"
  have s: "slice (pre @ w @ rest) (length pre) j = take (j - length pre) w"
    using j(2) by (simp add: slice_code)
  have "prefix (take (j - length pre) w) w" by (rule take_is_prefix)
  with pf [OF a [unfolded s] w] have "take (j - length pre) w = w" by simp
  then have "length (take (j - length pre) w) = length w" by simp
  with j show False by simp
qed

lemma decode_loop_codes:
  assumes pf: "\<And>x y. map_of e x \<noteq> None \<Longrightarrow> map_of e y \<noteq> None \<Longrightarrow> prefix x y \<Longrightarrow> x = y"
    and ne: "map_of e [] = None"
  shows "(\<And>w. w \<in> set ws \<Longrightarrow> map_of e w \<noteq> None) \<Longrightarrow>
         decode_loop e (pre @ concat ws) (length pre) out =
         Inr (out @ concat (map (\<lambda>w. the (map_of e w)) (butlast ws)))"
proof (induction ws arbitrary: pre out)
  case Nil
  show ?case by (subst decode_loop.simps) simp
next
  case (Cons w ws)
  have w: "map_of e w \<noteq> None" by (rule Cons.prems) simp
  with ne have wne: "w \<noteq> []" by auto
  define bits where "bits = pre @ concat (w # ws)"
  define i where "i = length pre"
  define k where "k = length pre + length w"
  have bits: "bits = pre @ w @ concat ws" by (simp add: bits_def)
  have ik: "i < k" using wne by (simp add: i_def k_def)
  have none: "map_of e (slice bits i j) = None" if "i < j" "j < k" for j
    unfolding bits i_def using pf w that [unfolded i_def k_def]
    by (rule proper_prefix_no_code)
  show ?case
  proof (cases ws)
    case Nil
    have len: "length bits = k" using Nil by (simp add: bits k_def)
    have "decode_loop e bits i out = Inr out"
    proof (rule decode_loop_break)
      show "i < length bits" using ik len by simp
      show "\<And>j. i < j \<Longrightarrow> j < length bits \<Longrightarrow> map_of e (slice bits i j) = None"
        using none len by simp
    qed
    then show ?thesis using Nil by (simp add: bits_def i_def)
  next
    case (Cons w' ws')
    have "map_of e w' \<noteq> None" by (rule Cons.prems) (simp add: Cons)
    with ne have "w' \<noteq> []" by auto
    then have klt: "k < length bits" using Cons by (simp add: bits k_def)
    have sk: "slice bits i k = w" unfolding bits i_def k_def by (simp add: slice_code)
    have scan: "scan_code e bits i (i + 1) = k"
    proof (rule scan_code_eq)
      show "i + 1 \<le> k" using ik by simp
      show "\<And>j'. i + 1 \<le> j' \<Longrightarrow> j' < k \<Longrightarrow>
              j' < length bits \<and> map_of e (slice bits i j') = None"
        using none klt by simp
      show "\<not> (k < length bits \<and> map_of e (slice bits i k) = None)"
        using w by (simp add: sk)
    qed
    from w obtain l where l: "map_of e w = Some l" by auto
    have ilt: "i < length bits" using ik klt by simp
    have scan': "scan_code e bits i (Suc i) = k" using scan by simp
    have step: "decode_loop e bits i out = decode_loop e bits k (out @ l)"
      using klt ilt by (subst decode_loop.simps) (simp add: scan scan' sk l)
    have "decode_loop e ((pre @ w) @ concat ws) (length (pre @ w)) (out @ l) =
          Inr ((out @ l) @ concat (map (\<lambda>w. the (map_of e w)) (butlast ws)))"
      by (rule Cons.IH) (simp add: Cons.prems)
    then have "decode_loop e bits k (out @ l) =
          Inr (out @ l @ concat (map (\<lambda>w. the (map_of e w)) (butlast ws)))"
      by (simp add: bits k_def)
    with step show ?thesis using Cons l by (simp add: bits_def i_def)
  qed
qed

lemma lookup_all_ok:
  "(\<And>c. c \<in> set s \<Longrightarrow> map_of d [c] \<noteq> None) \<Longrightarrow>
   lookup_all d s = Inr (map (\<lambda>c. the (map_of d [c])) s)"
proof (induction s)
  case Nil
  show ?case by simp
next
  case (Cons c s)
  have "map_of d [c] \<noteq> None" by (rule Cons.prems) simp
  then obtain e where e: "map_of d [c] = Some e" by auto
  have "lookup_all d s = Inr (map (\<lambda>c. the (map_of d [c])) s)"
    by (rule Cons.IH) (simp add: Cons.prems)
  with e show ?case by simp
qed

section \<open>Encoding an input with at least two distinct characters\<close>

lemma swap_pairs_fst: "map fst (map (\<lambda>(k, v). (v, k)) ps) = map snd ps"
  by (induction ps) auto

lemma swap_pairs_snd: "map snd (map (\<lambda>(k, v). (v, k)) ps) = map fst ps"
  by (induction ps) auto

lemma swap_pairs_twice: "map (\<lambda>(k, v). (v, k)) (map (\<lambda>(k, v). (v, k)) ps) = ps"
  by (induction ps) auto

lemma swap_pairs_mem: "(v, k) \<in> set (map (\<lambda>(k, v). (v, k)) ps) \<longleftrightarrow> (k, v) \<in> set ps"
  by (induction ps) auto

lemma concat_singletons: "concat (map (\<lambda>c. [c]) xs) = xs"
  by (induction xs) auto

lemma prefix_freeD:
  "prefix_free cs \<Longrightarrow> x \<in> set cs \<Longrightarrow> y \<in> set cs \<Longrightarrow> prefix x y \<Longrightarrow> x = y"
proof -
  assume "prefix_free cs" and x: "x \<in> set cs" and y: "y \<in> set cs" and p: "prefix x y"
  then have "\<forall>x \<in> set cs. \<forall>y \<in> set cs. prefix x y \<longrightarrow> x = y"
    by (simp add: prefix_free_def)
  from bspec [OF bspec [OF this x] y] p show "x = y" by simp
qed

text \<open>What \<open>encode\<close> computes for an input with at least two distinct characters.\<close>

lemma encode_shape:
  assumes c: "2 \<le> card (set s)"
  shows "\<exists>root n k code.
    build_tree s = Inr root \<and>
    code_book root = Inr (map (\<lambda>(k, v). (v, k)) (leaf_pairs (Some root) [])) \<and>
    invert_dict (map (\<lambda>(k, v). (v, k)) (leaf_pairs (Some root) [])) = leaf_pairs (Some root) [] \<and>
    int_str_of (map (\<lambda>(k, v). (v, k)) (leaf_pairs (Some root) [])) s = Inr (concat (map code s)) \<and>
    encode s = Some (Inr (py_hex n, map (\<lambda>(k, v). (v, k)) (leaf_pairs (Some root) []), k)) \<and>
    unpack_bits (py_hex n) k = Inr (concat (map code s)) \<and>
    (\<forall>c \<in> set s. map_of (leaf_pairs (Some root) []) (code c) = Some [c]) \<and>
    map_of (leaf_pairs (Some root) []) [] = None \<and>
    prefix_free (map fst (leaf_pairs (Some root) []))"
proof -
  have len: "2 \<le> length (init_heap (make_dict s))" using c by (simp add: first_queue(1))
  then have "\<exists>t. build_loop (init_heap (make_dict s)) (length s) = Inr t \<and>
              build_loop_spec (init_heap (make_dict s)) = Inr t"
    using first_queue(2) first_queue(3) by (rule build_loop_refines)
  then obtain root where r: "build_tree s = Inr root" by (auto simp: build_tree_def)
  define pairs where "pairs = leaf_pairs (Some root) []"
  define c2e where "c2e = map (\<lambda>(k, v). (v, k)) pairs"
  define code where "code = (\<lambda>c. the (map_of c2e [c]))"
  have dl: "distinct (map snd pairs)" and sl: "set (map snd pairs) = (\<lambda>c. [c]) ` set s"
    unfolding pairs_def using root_letters_distinct [OF c r] by simp_all
  have pf: "prefix_free (map fst pairs)" unfolding pairs_def by (rule leaf_pairs_prefix_free)
  then have dc: "distinct (map fst pairs)" by (simp add: prefix_free_def)
  have mp: "map pair_of (tree_dfs (Some root) [] []) = pairs"
    unfolding pairs_def by (simp add: tree_dfs_pairs)
  have len1: "length (letter x) = 1" if "x \<in> set (tree_dfs (Some root) [] [])" for x
  proof -
    from that have "pair_of x \<in> set (map pair_of (tree_dfs (Some root) [] []))" by simp
    then have "pair_of x \<in> set pairs" by (simp only: mp)
    then have "snd (pair_of x) \<in> set (map snd pairs)" by simp
    then have "letter x \<in> (\<lambda>c. [c]) ` set s" by (simp only: sl) (simp add: pair_of_def)
    then show ?thesis by auto
  qed
  have d0: "distinct (map fst ([] @ map pair_of (tree_dfs (Some root) [] [])))"
    unfolding mp using dc by simp
  have "fill_encoding_to_char (tree_dfs (Some root) [] []) [] =
        Inr ([] @ map pair_of (tree_dfs (Some root) [] []))"
    using len1 d0 by (rule fill_encoding_to_char_ok)
  then have fill: "fill_encoding_to_char (tree_dfs (Some root) [] []) [] = Inr pairs"
    by (simp add: mp)
  have cb: "code_book root = Inr c2e"
    unfolding code_book_def fill c2e_def by (simp add: invert_dict_distinct [OF dl])
  have inv: "invert_dict c2e = pairs"
  proof -
    have "distinct (map snd c2e)" unfolding c2e_def swap_pairs_snd by (rule dc)
    then have "invert_dict c2e = map (\<lambda>(k, v). (v, k)) c2e" by (rule invert_dict_distinct)
    then show ?thesis by (simp only: c2e_def swap_pairs_twice)
  qed
  have dk: "distinct (map fst c2e)" unfolding c2e_def swap_pairs_fst by (rule dl)
  have code: "([c], code c) \<in> set c2e \<and> map_of c2e [c] = Some (code c)" if "c \<in> set s" for c
  proof -
    from that have "[c] \<in> set (map snd pairs)" by (simp only: sl) simp
    then have "[c] \<in> set (map fst c2e)" by (simp only: c2e_def swap_pairs_fst)
    then obtain w where w: "([c], w) \<in> set c2e" by auto
    from map_of_is_SomeI [OF dk w] have "map_of c2e [c] = Some w" .
    then show ?thesis using w by (simp add: code_def)
  qed
  have code_pairs: "(code c, [c]) \<in> set pairs" if "c \<in> set s" for c
  proof -
    from code [OF that] have "([c], code c) \<in> set c2e" by (rule conjunct1)
    then have "([c], code c) \<in> set (map (\<lambda>(k, v). (v, k)) pairs)" by (simp only: c2e_def)
    then show ?thesis by (simp only: swap_pairs_mem)
  qed
  have code_letter: "map_of pairs (code c) = Some [c]" if "c \<in> set s" for c
    using dc code_pairs [OF that] by (rule map_of_is_SomeI)
  have la: "lookup_all c2e s = Inr (map (\<lambda>c. the (map_of c2e [c])) s)"
    by (rule lookup_all_ok) (simp add: code)
  have istr: "int_str_of c2e s = Inr (concat (map code s))"
    by (simp add: int_str_of_def la code_def)
  define c1 where "c1 = hd s"
  from c have "s \<noteq> []" by auto
  then have m1: "c1 \<in> set s" by (simp add: c1_def)
  have "\<exists>c2. c2 \<in> set s \<and> c1 \<noteq> c2"
  proof (rule ccontr)
    assume "\<not> (\<exists>c2. c2 \<in> set s \<and> c1 \<noteq> c2)"
    then have "set s \<subseteq> {c1}" by auto
    with m1 have "set s = {c1}" by auto
    then have "card (set s) = 1" by simp
    with c show False by simp
  qed
  then obtain c2 where m2: "c2 \<in> set s \<and> c1 \<noteq> c2" ..
  have c12: "c1 \<in> set s" "c2 \<in> set s" "c1 \<noteq> c2" using m1 m2 by simp_all
  have diff: "code c1 \<noteq> code c2"
  proof
    assume e: "code c1 = code c2"
    have "Some [c1] = map_of pairs (code c1)" by (rule code_letter [OF c12(1), symmetric])
    also have "\<dots> = map_of pairs (code c2)" by (simp only: e)
    also have "\<dots> = Some [c2]" by (rule code_letter [OF c12(2)])
    finally have "c1 = c2" by simp
    with c12(3) show False by simp
  qed
  have no_empty: "[] \<notin> set (map fst pairs)"
  proof
    assume e: "[] \<in> set (map fst pairs)"
    have m1: "code c1 \<in> set (map fst pairs)" and m2: "code c2 \<in> set (map fst pairs)"
      using code_pairs [OF c12(1)] code_pairs [OF c12(2)] by force+
    have "[] = code c1" by (rule prefix_freeD [OF pf e m1]) simp
    moreover have "[] = code c2" by (rule prefix_freeD [OF pf e m2]) simp
    ultimately show False using diff by simp
  qed
  then have ne: "map_of pairs [] = None" by (simp add: map_of_eq_None_iff)
  have code_ne: "code c \<noteq> []" if "c \<in> set s" for c
    using code_letter [OF that] ne by auto
  have bits: "set (concat (map code s)) \<subseteq> {CHR ''0'', CHR ''1''}"
  proof
    fix b assume "b \<in> set (concat (map code s))"
    then obtain c where cs: "c \<in> set s" and b: "b \<in> set (code c)" by auto
    from code_pairs [OF cs] have "(code c, [c]) \<in> set (leaf_pairs (Some root) [])"
      by (simp add: pairs_def)
    from leaf_pairs_bits [OF this] b show "b \<in> {CHR ''0'', CHR ''1''}" by auto
  qed
  have nonempty: "concat (map code s) \<noteq> []"
    using code_ne [OF c12(1)] c12(1) by auto
  from py_int2_bits [OF nonempty bits] obtain n where n: "py_int2 (concat (map code s)) = Inr n"
    by blast
  from pack_unpack [OF n] obtain k where
    pk: "pack (concat (map code s)) = Some (Inr (py_hex n, k))" and
    up: "unpack_bits (py_hex n) k = Inr (concat (map code s))" by blast
  have enc: "encode s = Some (Inr (py_hex n, c2e, k))"
    by (simp add: encode_def r cb istr pk)
  show ?thesis
    using r cb inv istr enc up code_letter ne pf unfolding c2e_def pairs_def by blast
qed

section \<open>Decoding what was encoded\<close>

lemma ab_encode:
  "encode ''ab'' = Some (Inr (''0x1'', [(''b'', ''1''), (''a'', ''0'')], 1))"
  by code_simp

lemma ab_decode:
  "decode (''0x1'', [(''b'', ''1''), (''a'', ''0'')], 1) = Inr (''a'' @ [CHR 0x0A])"
  by code_simp

text \<open>
  Claim C4: for every input with at least two distinct symbols, \<open>encode\<close> returns a
  payload, and on the bit string that \<open>decode\<close> rebuilds from it the scan loop of
  \<open>decode\<close> emits the input without its last symbol: the code that ends at the last bit is
  never looked up, since the inner loop stops at \<open>j == len(bin_str)\<close> and the outer loop
  then leaves by the \<open>break\<close>. \<open>decode\<close> writes these symbols and a newline.
\<close>

theorem decode_drops_last_symbol:
  assumes "2 \<le> card (set s)"
  shows "\<exists>hex_str char_to_encoding num_zeros_to_add bin_str.
           encode s = Some (Inr (hex_str, char_to_encoding, num_zeros_to_add)) \<and>
           unpack_bits hex_str num_zeros_to_add = Inr bin_str \<and>
           decode_loop (invert_dict char_to_encoding) bin_str 0 [] = Inr (butlast s) \<and>
           decode (hex_str, char_to_encoding, num_zeros_to_add) = Inr (butlast s @ [CHR 0x0A])"
proof -
  from encode_shape [OF assms] obtain root n k code where
    inv: "invert_dict (map (\<lambda>(k, v). (v, k)) (leaf_pairs (Some root) [])) =
          leaf_pairs (Some root) []" and
    enc: "encode s =
          Some (Inr (py_hex n, map (\<lambda>(k, v). (v, k)) (leaf_pairs (Some root) []), k))" and
    up: "unpack_bits (py_hex n) k = Inr (concat (map code s))" and
    letter: "\<forall>c \<in> set s. map_of (leaf_pairs (Some root) []) (code c) = Some [c]" and
    ne: "map_of (leaf_pairs (Some root) []) [] = None" and
    pf: "prefix_free (map fst (leaf_pairs (Some root) []))"
    by blast
  define pairs where "pairs = leaf_pairs (Some root) []"
  have letter': "map_of pairs (code c) = Some [c]" if "c \<in> set s" for c
    using letter that by (simp add: pairs_def)
  have apart: "x = y" if "map_of pairs x \<noteq> None" "map_of pairs y \<noteq> None" "prefix x y" for x y
  proof -
    from that(1) have x: "x \<in> set (map fst pairs)" by (simp add: map_of_eq_None_iff)
    from that(2) have y: "y \<in> set (map fst pairs)" by (simp add: map_of_eq_None_iff)
    from pf have "prefix_free (map fst pairs)" by (simp add: pairs_def)
    from prefix_freeD [OF this x y that(3)] show ?thesis .
  qed
  have codes: "map_of pairs w \<noteq> None" if "w \<in> set (map code s)" for w
  proof -
    from that obtain c where "c \<in> set s" "w = code c" by auto
    with letter' show ?thesis by simp
  qed
  have "decode_loop pairs ([] @ concat (map code s)) (length ([] :: string)) [] =
        Inr ([] @ concat (map (\<lambda>w. the (map_of pairs w)) (butlast (map code s))))"
    using apart ne [folded pairs_def] codes by (rule decode_loop_codes)
  then have d1: "decode_loop pairs (concat (map code s)) 0 [] =
        Inr (concat (map (\<lambda>w. the (map_of pairs w)) (butlast (map code s))))"
    by simp
  have "map (\<lambda>w. the (map_of pairs w)) (butlast (map code s)) =
        map (\<lambda>c. the (map_of pairs (code c))) (butlast s)"
    by (simp add: map_butlast [symmetric] comp_def)
  also have "\<dots> = map (\<lambda>c. [c]) (butlast s)"
  proof (rule map_cong [OF refl])
    fix c assume "c \<in> set (butlast s)"
    then have "c \<in> set s" by (rule in_set_butlastD)
    then show "the (map_of pairs (code c)) = [c]" by (simp add: letter')
  qed
  finally have "concat (map (\<lambda>w. the (map_of pairs w)) (butlast (map code s))) = butlast s"
    by (simp only: concat_singletons)
  with d1 have loop: "decode_loop pairs (concat (map code s)) 0 [] = Inr (butlast s)" by simp
  have dec: "decode (py_hex n, map (\<lambda>(k, v). (v, k)) (leaf_pairs (Some root) []), k) =
             Inr (butlast s @ [CHR 0x0A])"
    unfolding decode_def using up inv loop by (simp add: pairs_def)
  show ?thesis using enc up inv loop dec unfolding pairs_def by metis
qed

theorem decode_drops_last_symbol_witness:
  "2 \<le> card (set ''ab'') \<and>
   encode ''ab'' = Some (Inr (''0x1'', [(''b'', ''1''), (''a'', ''0'')], 1)) \<and>
   decode (''0x1'', [(''b'', ''1''), (''a'', ''0'')], 1) = Inr (butlast ''ab'' @ [CHR 0x0A])"
proof -
  have c: "2 \<le> card (set ''ab'')" by simp
  from decode_drops_last_symbol [OF c] obtain hex_str char_to_encoding num_zeros_to_add where
    "encode ''ab'' = Some (Inr (hex_str, char_to_encoding, num_zeros_to_add))"
    "decode (hex_str, char_to_encoding, num_zeros_to_add) = Inr (butlast ''ab'' @ [CHR 0x0A])"
    by blast
  with ab_encode c show ?thesis by simp
qed

text \<open>
  Claim C1 says that decoding the result of encoding a non-empty input gives back the
  input, as the docstring of \<open>decode\<close> and the test \<open>encode_decode_test\<close> say too. The code
  does not do that on the input \<open>ab\<close>: \<open>encode\<close> returns the number 1 in hexadecimal,
  the book \<open>{b: 1, a: 0}\<close> and one zero to add, and \<open>decode\<close> writes \<open>a\<close> and a newline,
  because its scan loop leaves by the \<open>break\<close> before it looks up the last code.
\<close>

theorem roundtrip_fails_on_ab:
  "encode ''ab'' = Some (Inr (''0x1'', [(''b'', ''1''), (''a'', ''0'')], 1)) \<and>
   decode (''0x1'', [(''b'', ''1''), (''a'', ''0'')], 1) = Inr (''a'' @ [CHR 0x0A]) \<and>
   ''a'' @ [CHR 0x0A] \<noteq> ''ab''"
  using ab_encode ab_decode by simp

end
